theory Spec2Isabelle
  imports Main "HOL-Library.AList"
begin

section \<open>Text primitives of Python used by the handler\<close>

text \<open>
  The handler reads a file as UTF-8 text and works on Python strings. A character of
  the model is a code point below 256 (the type \<open>char\<close>), and a string is a list
  of them. The predicates below are Python's on that range: \<open>isspace\<close> is the set
  that \<open>str.strip\<close> and the regular expression class \<open>\s\<close> share, and
  \<open>lower_char\<close> is \<open>str.lower\<close> on one character.
\<close>

definition isspace :: "char \<Rightarrow> bool" where
  "isspace c = (c \<in> {CHR 0x09, CHR 0x0A, CHR 0x0B, CHR 0x0C, CHR 0x0D, CHR 0x1C, CHR 0x1D,
                      CHR 0x1E, CHR 0x1F, CHR 0x20, CHR 0x85, CHR 0xA0})"

definition lower_char :: "char \<Rightarrow> char" where
  "lower_char c =
     (let n = (of_char c :: nat) in
      if (65 \<le> n \<and> n \<le> 90) \<or> (192 \<le> n \<and> n \<le> 222 \<and> n \<noteq> 215)
      then char_of (n + 32) else c)"

definition lower :: "string \<Rightarrow> string" where
  "lower s = map lower_char s"

definition lstrip :: "string \<Rightarrow> string" where
  "lstrip s = dropWhile isspace s"

definition rstrip :: "string \<Rightarrow> string" where
  "rstrip s = rev (dropWhile isspace (rev s))"

definition strip :: "string \<Rightarrow> string" where
  "strip s = rstrip (lstrip s)"

text \<open>\<open>sep.join(xs)\<close>.\<close>

fun join :: "string \<Rightarrow> string list \<Rightarrow> string" where
  "join sep [] = []"
| "join sep [x] = x"
| "join sep (x # y # ys) = x @ sep @ join sep (y # ys)"

text \<open>
  Iterating over a text stream yields its lines, each with its terminating newline; a
  last line without a newline is yielded as it is. \<open>splitlines acc s\<close> carries the
  line read so far in \<open>acc\<close>.
\<close>

fun splitlines :: "string \<Rightarrow> string \<Rightarrow> string list" where
  "splitlines acc [] = (if acc = [] then [] else [acc])"
| "splitlines acc (c # cs) =
     (if c = CHR 0x0A then (acc @ [c]) # splitlines [] cs else splitlines (acc @ [c]) cs)"

text \<open>
  \<open>open(path, 'r')\<close> reads with universal newlines: \<open>\r\n\<close> and a lone \<open>\r\<close> arrive
  as \<open>\n\<close>.
\<close>

fun universal_newlines :: "string \<Rightarrow> string" where
  "universal_newlines [] = []"
| "universal_newlines [c] = (if c = CHR 0x0D then [CHR 0x0A] else [c])"
| "universal_newlines (c # d # cs) =
     (if c = CHR 0x0D \<and> d = CHR 0x0A then CHR 0x0A # universal_newlines cs
      else if c = CHR 0x0D then CHR 0x0A # universal_newlines (d # cs)
      else c # universal_newlines (d # cs))"

definition readlines :: "string \<Rightarrow> string list" where
  "readlines text = splitlines [] (universal_newlines text)"

section \<open>preprocess_file\<close>

text \<open>
  \<open>re.sub(c + '.*$', '', line)\<close> for a comment character \<open>c\<close>. The dot does not
  match a newline and \<open>$\<close> matches at the end of the string or before a newline that
  ends it, so an occurrence of \<open>c\<close> starts a match exactly when the rest of its line
  is the end of the string or a final newline; the match is then removed and nothing
  after it can match again.
\<close>

fun sub_comment :: "char \<Rightarrow> string \<Rightarrow> string" where
  "sub_comment c [] = []"
| "sub_comment c (x # xs) =
     (if x = c then
        (let r = dropWhile (\<lambda>y. y \<noteq> CHR 0x0A) xs
         in if r = [] \<or> r = [CHR 0x0A] then r else x # sub_comment c xs)
      else x # sub_comment c xs)"

text \<open>The body of the loop of \<open>preprocess_file\<close> for one line.\<close>

definition preprocess_line :: "string \<Rightarrow> string" where
  "preprocess_line line = strip (sub_comment (CHR ''#'') (sub_comment (CHR '';'') line))"

definition processed_lines :: "string \<Rightarrow> string list" where
  "processed_lines text = filter (\<lambda>l. l \<noteq> []) (map preprocess_line (readlines text))"

definition preprocess_file :: "string \<Rightarrow> string" where
  "preprocess_file text = join [CHR 0x0A] (processed_lines text)"

section \<open>The exceptions\<close>

text \<open>
  \<open>cp_error\<close> are the subclasses of \<open>configparser.Error\<close> that the standard library
  raises on the paths the handler uses, with the arguments they are raised with (the
  source name \<open><string>\<close> is left out). \<open>error\<close> is every exception that leaves a
  method of the handler.
\<close>

datatype cp_error =
    DuplicateSectionError string "nat option"
  | DuplicateOptionError string string nat
  | MissingSectionHeaderError nat string
  | ParsingError "(nat \<times> string) list"
  | NoSectionError string
  | NoOptionError string string
  | InterpolationDepthError string string
  | InterpolationSyntaxError string string
  | InterpolationMissingOptionError string string string

datatype error =
    FileNotFound                    \<comment> \<open>\<open>FileNotFoundError\<close>, load_config\<close>
  | ParseError cp_error             \<comment> \<open>\<open>ValueError("Error parsing config file: {e}")\<close>\<close>
  | DuplicateProfile string         \<comment> \<open>\<open>ValueError("Duplicate profile name '{clean_section}' found.")\<close>\<close>
  | DuplicateKey string string      \<comment> \<open>\<open>ValueError("Duplicate key '{clean_key}' found in section '{clean_section}'")\<close>\<close>
  | InvalidInterpolation string     \<comment> \<open>\<open>ValueError("invalid interpolation syntax in ...")\<close>, before_set\<close>
  | InvalidSectionName string       \<comment> \<open>\<open>ValueError("Invalid section name: ...")\<close>, add_section\<close>
  | ProfileNotFound string          \<comment> \<open>\<open>KeyError("Profile '{profile_name}' not found")\<close>\<close>
  | KeyNotFound string string       \<comment> \<open>\<open>KeyError("Key '{key_name}' not found in profile '{profile_name}'")\<close>\<close>
  | PyKeyError string               \<comment> \<open>\<open>KeyError\<close> of a dictionary access\<close>
  | Configparser cp_error           \<comment> \<open>a \<open>configparser.Error\<close> that nothing catches\<close>

section \<open>configparser: the parser object\<close>

text \<open>
  The model follows \<open>configparser.py\<close> of CPython 3.11 for a parser made with the
  default arguments, as the handler makes both of its parsers: delimiters \<open>=\<close> and
  \<open>:\<close>, full-line comment prefixes \<open>#\<close> and \<open>;\<close>, no inline comment prefixes,
  strict, empty lines in values, no valueless options, default section \<open>DEFAULT\<close>.

  A Python dictionary keeps its keys in insertion order and assigning to a key that
  exists keeps its place: an association list with \<open>AList.update\<close>.
  \<open>_sections\<close> maps a section name to the dictionary of its options and
  \<open>_defaults\<close> is the dictionary of the default section. While a source is read
  an option's value is the list of its lines; afterwards it is a string.
\<close>

record 'v parser =
  p_sections :: "(string \<times> (string \<times> 'v) list) list"
  p_defaults :: "(string \<times> 'v) list"

definition default_section :: string where
  "default_section = ''DEFAULT''"

definition new_parser :: "'v parser" where
  "new_parser = \<lparr>p_sections = [], p_defaults = []\<rparr>"

text \<open>
  \<open>optionxform\<close> is \<open>str.lower\<close> unless the handler was made with
  \<open>preserve_case\<close>, which replaces it by \<open>str\<close> on both of its parsers; the flag
  is passed where the method is used.
\<close>

definition optionxform :: "bool \<Rightarrow> string \<Rightarrow> string" where
  "optionxform preserve_case optionstr = (if preserve_case then optionstr else lower optionstr)"

definition sections :: "('v, 'z) parser_scheme \<Rightarrow> string list" where
  "sections p = map fst (p_sections p)"

definition has_section :: "'v parser \<Rightarrow> string \<Rightarrow> bool" where
  "has_section p section = (section \<in> set (sections p))"

text \<open>\<open>__contains__\<close>: \<open>key in parser\<close>.\<close>

definition contains :: "'v parser \<Rightarrow> string \<Rightarrow> bool" where
  "contains p key = (key = default_section \<or> has_section p key)"

definition add_section :: "'v parser \<Rightarrow> string \<Rightarrow> error + 'v parser" where
  "add_section p section =
     (if section = default_section then Inl (InvalidSectionName section)
      else if section \<in> set (sections p) then Inl (Configparser (DuplicateSectionError section None))
      else Inr (p\<lparr>p_sections := p_sections p @ [(section, [])]\<rparr>))"

text \<open>\<open>d.update(other)\<close> for dictionaries.\<close>

definition dict_update :: "('k \<times> 'v) list \<Rightarrow> ('k \<times> 'v) list \<Rightarrow> ('k \<times> 'v) list" where
  "dict_update d other = fold (\<lambda>(k, v). AList.update k v) other d"

subsection \<open>The regular expressions of the parser\<close>

text \<open>
  \<open>SECTCRE.match(value)\<close> with \<open>SECTCRE = \[(?P<header>.+)\]\<close>: the value starts
  with \<open>[\<close>, and the greedy group runs to the last \<open>]\<close> that the dot can reach (it
  stops at a newline) and holds at least one character. The result is the group
  \<open>header\<close>. Text after that \<open>]\<close> is ignored, as \<open>match\<close> anchors the start only.
\<close>

definition SECTCRE_match :: "string \<Rightarrow> string option" where
  "SECTCRE_match v =
     (case v of
        [] \<Rightarrow> None
      | c # rest \<Rightarrow>
          if c \<noteq> CHR ''['' then None
          else
            (let seg = takeWhile (\<lambda>y. y \<noteq> CHR 0x0A) rest;
                 tail = takeWhile (\<lambda>y. y \<noteq> CHR '']'') (rev seg);
                 header = take (length seg - length tail - 1) seg
             in if CHR '']'' \<in> set seg \<and> header \<noteq> [] then Some header else None))"

text \<open>
  \<open>OPTCRE.match(value)\<close> with
  \<open>OPTCRE = (?P<option>.*?)\s*(?P<vi>=|:)\s*(?P<value>.*)$\<close>, for a value without a
  newline (\<open>_read\<close> matches stripped lines only): the lazy group \<open>option\<close> ends
  where only whitespace separates it from the first delimiter, and the group
  \<open>value\<close> is what follows the delimiter and the whitespace after it. The result
  is \<open>mo.group('option', 'vi', 'value')\<close>; there is no match without a delimiter.
\<close>

definition is_delim :: "char \<Rightarrow> bool" where
  "is_delim c = (c = CHR ''='' \<or> c = CHR '':'')"

definition OPTCRE_match :: "string \<Rightarrow> (string \<times> char \<times> string) option" where
  "OPTCRE_match v =
     (case dropWhile (\<lambda>c. \<not> is_delim c) v of
        [] \<Rightarrow> None
      | vi # r \<Rightarrow> Some (rstrip (takeWhile (\<lambda>c. \<not> is_delim c) v), vi, lstrip r))"

subsection \<open>Reading a source: \<open>_read\<close>\<close>

text \<open>
  The state of \<open>_read\<close>: the parser it fills and its local variables.
  \<open>cursect\<close> is a reference to a dictionary of the parser, \<open>_defaults\<close> or the
  dictionary of a section; it is assigned together with \<open>sectname\<close>, so the model
  holds the two as one optional pair (\<open>None\<close> before the first header).
  \<open>elements_added\<close> holds section names and (section, option) pairs. \<open>e\<close> is the
  \<open>ParsingError\<close> under construction, as the list of its errors, empty for \<open>None\<close>.
\<close>

datatype dictref = DefaultsRef | SectionRef string

datatype element = Sect string | Opt string string

record read_state = "string list parser" +
  elements_added :: "element set"
  cursect :: "(string \<times> dictref) option"
  optname :: "string option"
  indent_level :: nat
  e :: "(nat \<times> string) list"

definition new_read_state :: read_state where
  "new_read_state =
     \<lparr>p_sections = [], p_defaults = [], elements_added = {}, cursect = None,
      optname = None, indent_level = 0, e = []\<rparr>"

text \<open>The dictionary behind a reference, and an update of it in place.\<close>

definition deref :: "read_state \<Rightarrow> dictref \<Rightarrow> (string \<times> string list) list" where
  "deref st r =
     (case r of
        DefaultsRef \<Rightarrow> p_defaults st
      | SectionRef name \<Rightarrow> (case map_of (p_sections st) name of Some d \<Rightarrow> d | None \<Rightarrow> []))"

definition update_ref ::
  "dictref \<Rightarrow> ((string \<times> string list) list \<Rightarrow> (string \<times> string list) list) \<Rightarrow> read_state \<Rightarrow> read_state"
where
  "update_ref r f st =
     (case r of
        DefaultsRef \<Rightarrow> st\<lparr>p_defaults := f (p_defaults st)\<rparr>
      | SectionRef name \<Rightarrow> st\<lparr>p_sections := AList.map_entry name f (p_sections st)\<rparr>)"

text \<open>\<open>cursect[optname].append(v)\<close>.\<close>

definition append_value :: "dictref \<Rightarrow> string \<Rightarrow> string \<Rightarrow> read_state \<Rightarrow> error + read_state" where
  "append_value r name v st =
     (case map_of (deref st r) name of
        None \<Rightarrow> Inl (PyKeyError name)
      | Some vs \<Rightarrow> Inr (update_ref r (AList.update name (vs @ [v])) st))"

text \<open>
  The test \<open>cursect is not None and optname\<close>, which guards both appends to the
  value of the last option: the dictionary and the key, when there are such.
\<close>

definition last_option :: "read_state \<Rightarrow> (dictref \<times> string) option" where
  "last_option st =
     (case cursect st of
        None \<Rightarrow> None
      | Some (sectname, r) \<Rightarrow>
          (case optname st of
             None \<Rightarrow> None
           | Some name \<Rightarrow> if name = [] then None else Some (r, name)))"

text \<open>\<open>line.strip().startswith(prefix)\<close> for one of the comment prefixes.\<close>

definition full_line_comment :: "string \<Rightarrow> bool" where
  "full_line_comment line =
     (case strip line of [] \<Rightarrow> False | c # _ \<Rightarrow> c = CHR ''#'' \<or> c = CHR '';'')"

text \<open>The branch of \<open>_read\<close> for a section header \<open>[name]\<close> at line \<open>lineno\<close>.\<close>

definition read_header :: "read_state \<Rightarrow> nat \<Rightarrow> string \<Rightarrow> error + read_state" where
  "read_header st lineno name =
     (if name \<in> set (sections st) then
        (if Sect name \<in> elements_added st
         then Inl (Configparser (DuplicateSectionError name (Some lineno)))
         else Inr (st\<lparr>cursect := Some (name, SectionRef name),
                      elements_added := insert (Sect name) (elements_added st),
                      optname := None\<rparr>))
      else if name = default_section then
        Inr (st\<lparr>cursect := Some (name, DefaultsRef), optname := None\<rparr>)
      else
        Inr (st\<lparr>p_sections := p_sections st @ [(name, [])],
                 cursect := Some (name, SectionRef name),
                 elements_added := insert (Sect name) (elements_added st),
                 optname := None\<rparr>))"

text \<open>
  The branch for an option line, in the section \<open>sectname\<close> whose dictionary is
  \<open>r\<close>. \<open>_handle_error\<close> appends the line to the pending \<open>ParsingError\<close>.
\<close>

definition handle_error :: "read_state \<Rightarrow> nat \<Rightarrow> string \<Rightarrow> read_state" where
  "handle_error st lineno line = st\<lparr>e := e st @ [(lineno, line)]\<rparr>"

definition read_option ::
  "bool \<Rightarrow> read_state \<Rightarrow> string \<Rightarrow> dictref \<Rightarrow> nat \<Rightarrow> string \<Rightarrow> string \<Rightarrow> error + read_state"
where
  "read_option preserve_case st sectname r lineno line v =
     (case OPTCRE_match v of
        None \<Rightarrow> Inr (handle_error st lineno line)
      | Some (name, vi, optval) \<Rightarrow>
          (let st1 = (if name = [] then handle_error st lineno line else st);
               name' = optionxform preserve_case (rstrip name)
           in if Opt sectname name' \<in> elements_added st1
              then Inl (Configparser (DuplicateOptionError sectname name' lineno))
              else Inr (update_ref r (AList.update name' [strip optval])
                         (st1\<lparr>elements_added := insert (Opt sectname name') (elements_added st1),
                              optname := Some name'\<rparr>))))"

text \<open>The body of the loop of \<open>_read\<close> for the line \<open>line\<close> with number \<open>lineno\<close>.\<close>

definition read_line :: "bool \<Rightarrow> read_state \<Rightarrow> nat \<Rightarrow> string \<Rightarrow> error + read_state" where
  "read_line preserve_case st lineno line =
     (let comment = full_line_comment line;
          v = strip (if comment then [] else line)
      in if v = [] then
           (case (if comment then None else last_option st) of
              Some (r, name) \<Rightarrow> append_value r name [] st
            | None \<Rightarrow> Inr st)
         else
           (let cur_indent_level = length (takeWhile isspace line)
            in case (if cur_indent_level > indent_level st then last_option st else None) of
                 Some (r, name) \<Rightarrow> append_value r name v st
               | None \<Rightarrow>
                   (let st' = st\<lparr>indent_level := cur_indent_level\<rparr>
                    in case SECTCRE_match v of
                         Some name \<Rightarrow> read_header st' lineno name
                       | None \<Rightarrow>
                           (case cursect st' of
                              None \<Rightarrow> Inl (Configparser (MissingSectionHeaderError lineno line))
                            | Some (sectname, r) \<Rightarrow>
                                read_option preserve_case st' sectname r lineno line v))))"

fun read_lines :: "bool \<Rightarrow> read_state \<Rightarrow> nat \<Rightarrow> string list \<Rightarrow> error + read_state" where
  "read_lines preserve_case st lineno [] = Inr st"
| "read_lines preserve_case st lineno (line # rest) =
     (case read_line preserve_case st lineno line of
        Inl err \<Rightarrow> Inl err
      | Inr st' \<Rightarrow> read_lines preserve_case st' (Suc lineno) rest)"

text \<open>
  \<open>_join_multiline_values\<close>: the lines of each value are joined with newlines and
  stripped on the right (\<open>before_read\<close> of a \<open>RawConfigParser\<close> changes nothing).
\<close>

definition join_value :: "string list \<Rightarrow> string" where
  "join_value val = rstrip (join [CHR 0x0A] val)"

definition join_multiline_values :: "read_state \<Rightarrow> string parser" where
  "join_multiline_values st =
     \<lparr>p_sections = map (\<lambda>(name, options). (name, map (\<lambda>(k, val). (k, join_value val)) options))
                      (p_sections st),
      p_defaults = map (\<lambda>(k, val). (k, join_value val)) (p_defaults st)\<rparr>"

text \<open>
  \<open>read_string\<close> on a parser that has read nothing yet, as \<open>load_config\<close> calls it:
  the lines of the string are read in order, a pending \<open>ParsingError\<close> is raised
  after the last one.
\<close>

definition read_string :: "bool \<Rightarrow> string \<Rightarrow> error + string parser" where
  "read_string preserve_case string =
     (case read_lines preserve_case new_read_state 1 (splitlines [] string) of
        Inl err \<Rightarrow> Inl err
      | Inr st \<Rightarrow>
          if e st \<noteq> [] then Inl (Configparser (ParsingError (e st)))
          else Inr (join_multiline_values st))"

subsection \<open>Access to a parser that has been filled\<close>

text \<open>
  \<open>RawConfigParser.items(section)\<close> of the parser that read the file, which does no
  interpolation: the defaults, updated with the options of the section.
\<close>

definition items_raw :: "string parser \<Rightarrow> string \<Rightarrow> error + (string \<times> string) list" where
  "items_raw p section =
     (case map_of (p_sections p) section of
        Some d \<Rightarrow> Inr (dict_update (p_defaults p) d)
      | None \<Rightarrow>
          if section \<noteq> default_section then Inl (Configparser (NoSectionError section))
          else Inr (p_defaults p))"

subsection \<open>BasicInterpolation, the interpolation of \<open>ConfigParser\<close>\<close>

text \<open>\<open>value.replace('%%', '')\<close>.\<close>

fun remove_escaped :: "string \<Rightarrow> string" where
  "remove_escaped [] = []"
| "remove_escaped [c] = [c]"
| "remove_escaped (c # d # cs) =
     (if c = CHR ''%'' \<and> d = CHR ''%'' then remove_escaped cs else c # remove_escaped (d # cs))"

text \<open>
  \<open>_KEYCRE.match(s)\<close> with \<open>_KEYCRE = %\(([^)]+)\)s\<close>: the group and the text after
  the match.
\<close>

definition KEYCRE_match :: "string \<Rightarrow> (string \<times> string) option" where
  "KEYCRE_match s =
     (case s of
        c # d # r \<Rightarrow>
          if c = CHR ''%'' \<and> d = CHR ''(''
          then
            (let name = takeWhile (\<lambda>y. y \<noteq> CHR '')'') r;
                 r' = dropWhile (\<lambda>y. y \<noteq> CHR '')'') r
             in if name \<noteq> [] \<and> take 2 r' = '')s'' then Some (name, drop 2 r') else None)
          else None
      | _ \<Rightarrow> None)"

text \<open>\<open>_KEYCRE.sub('', s)\<close>: every match, found from left to right, is removed.\<close>

function KEYCRE_sub :: "string \<Rightarrow> string" where
  "KEYCRE_sub [] = []"
| "KEYCRE_sub (c # cs) =
     (case KEYCRE_match (c # cs) of
        Some (name, rest) \<Rightarrow> KEYCRE_sub rest
      | None \<Rightarrow> c # KEYCRE_sub cs)"
  by pat_completeness auto
termination
proof (relation "measure length")
  fix c cs x name rest
  have shorter: "length r < length s" if a: "KEYCRE_match s = Some (n, r)" for s n r
  proof -
    from a obtain c d t where s: "s = c # d # t"
      by (cases s; cases "tl s") (auto simp: KEYCRE_match_def)
    from a s have "r = drop 2 (dropWhile (\<lambda>y. y \<noteq> CHR '')'') t)"
      by (auto simp: KEYCRE_match_def Let_def split: if_splits)
    moreover have "length (dropWhile (\<lambda>y. y \<noteq> CHR '')'') t) \<le> length t"
      by (rule length_dropWhile_le)
    ultimately show ?thesis using s by simp
  qed
  assume "KEYCRE_match (c # cs) = Some x" and "(name, rest) = x"
  then have "KEYCRE_match (c # cs) = Some (name, rest)"
    by simp
  then show "(rest, c # cs) \<in> measure length"
    using shorter by fastforce
qed simp_all

definition before_set :: "string \<Rightarrow> error + string" where
  "before_set v =
     (let tmp_value = KEYCRE_sub (remove_escaped v)
      in if CHR ''%'' \<in> set tmp_value then Inl (InvalidInterpolation v) else Inr v)"

definition MAX_INTERPOLATION_DEPTH :: nat where
  "MAX_INTERPOLATION_DEPTH = 10"

text \<open>
  \<open>_interpolate_some(parser, option, accum, rest, section, map, depth)\<close>. The
  dictionary \<open>m\<close> is looked up with \<open>map_of\<close>. The result is \<open>accum\<close> after the
  call, as one string.
\<close>

function interpolate_some ::
  "bool \<Rightarrow> string \<Rightarrow> string \<Rightarrow> (string \<times> string) list \<Rightarrow> nat \<Rightarrow> string \<Rightarrow> string \<Rightarrow> error + string"
where
  "interpolate_some preserve_case option section m depth accum rest =
     (if depth > MAX_INTERPOLATION_DEPTH
      then Inl (Configparser (InterpolationDepthError option section))
      else if rest = [] then Inr accum
      else if CHR ''%'' \<notin> set rest then Inr (accum @ rest)
      else
        (let accum1 = accum @ takeWhile (\<lambda>y. y \<noteq> CHR ''%'') rest;
             rest1 = dropWhile (\<lambda>y. y \<noteq> CHR ''%'') rest;
             c = take 1 (drop 1 rest1)
         in if c = ''%''
            then interpolate_some preserve_case option section m depth (accum1 @ ''%'') (drop 2 rest1)
            else if c = ''(''
            then
              (case KEYCRE_match rest1 of
                 None \<Rightarrow> Inl (Configparser (InterpolationSyntaxError option section))
               | Some (name, rest2) \<Rightarrow>
                   (let var = optionxform preserve_case name
                    in case map_of m var of
                         None \<Rightarrow> Inl (Configparser (InterpolationMissingOptionError option section var))
                       | Some v \<Rightarrow>
                           (if CHR ''%'' \<in> set v
                            then
                              (case interpolate_some preserve_case option section m (Suc depth) accum1 v of
                                 Inl err \<Rightarrow> Inl err
                               | Inr accum2 \<Rightarrow>
                                   interpolate_some preserve_case option section m depth accum2 rest2)
                            else
                              interpolate_some preserve_case option section m depth (accum1 @ v) rest2)))
            else Inl (Configparser (InterpolationSyntaxError option section))))"
  by pat_completeness auto
termination
proof (relation "measures [\<lambda>(pc, opt, sec, m, depth, accum, rest). Suc MAX_INTERPOLATION_DEPTH - depth,
                           \<lambda>(pc, opt, sec, m, depth, accum, rest). length rest]",
       goal_cases)
  case 1
  show ?case by simp
next
  case (2 pc opt sec m depth accum rest accum1 rest1 c)
  have "length (dropWhile (\<lambda>y. y \<noteq> CHR ''%'') rest) \<le> length rest"
    by (rule length_dropWhile_le)
  with 2 show ?case
    by (cases rest) auto
next
  case (3 pc opt sec m depth accum rest accum1 rest1 c name_rest2 name rest2 var v)
  then show ?case
    by (auto simp: MAX_INTERPOLATION_DEPTH_def)
next
  case (4 pc opt sec m depth accum rest accum1 rest1 c name_rest2 name rest2 var v accum2)
  have shorter: "length r < length s" if a: "KEYCRE_match s = Some (n, r)" for s n r
  proof -
    from a obtain c d t where s: "s = c # d # t"
      by (cases s; cases "tl s") (auto simp: KEYCRE_match_def)
    from a s have "r = drop 2 (dropWhile (\<lambda>y. y \<noteq> CHR '')'') t)"
      by (auto simp: KEYCRE_match_def Let_def split: if_splits)
    moreover have "length (dropWhile (\<lambda>y. y \<noteq> CHR '')'') t) \<le> length t"
      by (rule length_dropWhile_le)
    ultimately show ?thesis using s by simp
  qed
  from 4 have "KEYCRE_match (dropWhile (\<lambda>y. y \<noteq> CHR ''%'') rest) = Some (name, rest2)"
    by simp
  then have "length rest2 < length (dropWhile (\<lambda>y. y \<noteq> CHR ''%'') rest)"
    by (rule shorter)
  also have "\<dots> \<le> length rest"
    by (rule length_dropWhile_le)
  finally show ?case by simp
next
  case (5 pc opt sec m depth accum rest accum1 rest1 c name_rest2 name rest2 var v)
  have shorter: "length r < length s" if a: "KEYCRE_match s = Some (n, r)" for s n r
  proof -
    from a obtain c d t where s: "s = c # d # t"
      by (cases s; cases "tl s") (auto simp: KEYCRE_match_def)
    from a s have "r = drop 2 (dropWhile (\<lambda>y. y \<noteq> CHR '')'') t)"
      by (auto simp: KEYCRE_match_def Let_def split: if_splits)
    moreover have "length (dropWhile (\<lambda>y. y \<noteq> CHR '')'') t) \<le> length t"
      by (rule length_dropWhile_le)
    ultimately show ?thesis using s by simp
  qed
  from 5 have "KEYCRE_match (dropWhile (\<lambda>y. y \<noteq> CHR ''%'') rest) = Some (name, rest2)"
    by simp
  then have "length rest2 < length (dropWhile (\<lambda>y. y \<noteq> CHR ''%'') rest)"
    by (rule shorter)
  also have "\<dots> \<le> length rest"
    by (rule length_dropWhile_le)
  finally show ?case by simp
qed

declare interpolate_some.simps [simp del]

text \<open>\<open>BasicInterpolation.before_get\<close>.\<close>

definition before_get ::
  "bool \<Rightarrow> string \<Rightarrow> string \<Rightarrow> string \<Rightarrow> (string \<times> string) list \<Rightarrow> error + string"
where
  "before_get preserve_case section option v d =
     interpolate_some preserve_case option section d 1 [] v"

subsection \<open>The methods of \<open>ConfigParser\<close> that the handler calls on its cleaned parser\<close>

text \<open>
  \<open>ConfigParser.set(section, option, value)\<close>: a value that is not empty goes
  through \<open>before_set\<close>; an empty section name and \<open>DEFAULT\<close> both name the
  dictionary of the defaults.
\<close>

definition set_option ::
  "bool \<Rightarrow> string parser \<Rightarrow> string \<Rightarrow> string \<Rightarrow> string \<Rightarrow> error + string parser"
where
  "set_option preserve_case p section option v =
     (case (if v \<noteq> [] then before_set v else Inr v) of
        Inl err \<Rightarrow> Inl err
      | Inr v' \<Rightarrow>
          if section = [] \<or> section = default_section then
            Inr (p\<lparr>p_defaults := AList.update (optionxform preserve_case option) v' (p_defaults p)\<rparr>)
          else if section \<in> set (sections p) then
            Inr (p\<lparr>p_sections :=
                     AList.map_entry section (AList.update (optionxform preserve_case option) v')
                       (p_sections p)\<rparr>)
          else Inl (Configparser (NoSectionError section)))"

text \<open>
  \<open>ConfigParser.items(section)\<close>: the defaults updated with the options of the
  section, each value interpolated against that dictionary.
\<close>

fun interpolate_items ::
  "bool \<Rightarrow> string \<Rightarrow> (string \<times> string) list \<Rightarrow> (string \<times> string) list \<Rightarrow>
   error + (string \<times> string) list"
where
  "interpolate_items preserve_case section d [] = Inr []"
| "interpolate_items preserve_case section d ((option, v) # rest) =
     (case before_get preserve_case section option v d of
        Inl err \<Rightarrow> Inl err
      | Inr v' \<Rightarrow>
          (case interpolate_items preserve_case section d rest of
             Inl err \<Rightarrow> Inl err
           | Inr rest' \<Rightarrow> Inr ((option, v') # rest')))"

definition items :: "bool \<Rightarrow> string parser \<Rightarrow> string \<Rightarrow> error + (string \<times> string) list" where
  "items preserve_case p section =
     (case items_raw p section of
        Inl err \<Rightarrow> Inl err
      | Inr d \<Rightarrow> interpolate_items preserve_case section d d)"



section \<open>ConfigHandler\<close>

record handler =
  preserve_case :: bool
  config :: "string parser"

text \<open>The inner loop of \<open>load_config\<close>, over the items of one section.\<close>

fun clean_items ::
  "bool \<Rightarrow> string \<Rightarrow> string set \<Rightarrow> string parser \<Rightarrow> (string \<times> string) list \<Rightarrow>
   error + string parser"
where
  "clean_items pc clean_section keys_seen cleaned_config [] = Inr cleaned_config"
| "clean_items pc clean_section keys_seen cleaned_config ((key, v) # rest) =
     (let clean_key = strip key;
          clean_value = strip v
      in if clean_key \<in> keys_seen then Inl (DuplicateKey clean_key clean_section)
         else
           (case set_option pc cleaned_config clean_section clean_key clean_value of
              Inl err \<Rightarrow> Inl err
            | Inr cleaned_config' \<Rightarrow>
                clean_items pc clean_section (insert clean_key keys_seen) cleaned_config' rest))"

text \<open>
  The outer loop of \<open>load_config\<close>, over the sections of the parser \<open>raw\<close> that
  read the file.
\<close>

definition clean_name :: "bool \<Rightarrow> string \<Rightarrow> string" where
  "clean_name pc section = (if \<not> pc then lower (strip section) else strip section)"

fun clean_sections ::
  "bool \<Rightarrow> string parser \<Rightarrow> string set \<Rightarrow> string parser \<Rightarrow> string list \<Rightarrow> error + string parser"
where
  "clean_sections pc raw seen_sections cleaned_config [] = Inr cleaned_config"
| "clean_sections pc raw seen_sections cleaned_config (section # rest) =
     (let clean_section = clean_name pc section
      in if clean_section \<in> seen_sections then Inl (DuplicateProfile clean_section)
         else
           (case (if \<not> contains cleaned_config clean_section
                  then add_section cleaned_config clean_section
                  else Inr cleaned_config) of
              Inl err \<Rightarrow> Inl err
            | Inr cleaned1 \<Rightarrow>
                (case items_raw raw section of
                   Inl err \<Rightarrow> Inl err
                 | Inr its \<Rightarrow>
                     (case clean_items pc clean_section {} cleaned1 its of
                        Inl err \<Rightarrow> Inl err
                      | Inr cleaned2 \<Rightarrow>
                          clean_sections pc raw (insert clean_section seen_sections) cleaned2 rest))))"

text \<open>\<open>except configparser.Error as e: raise ValueError(...) from e\<close>.\<close>

definition except_configparser :: "error + 'a \<Rightarrow> error + 'a" where
  "except_configparser r =
     (case r of
        Inl (Configparser err) \<Rightarrow> Inl (ParseError err)
      | _ \<Rightarrow> r)"

text \<open>
  \<open>ConfigHandler(filepath, preserve_case)\<close>, which is \<open>load_config\<close> on two new
  parsers. \<open>file\<close> is the text of the file at \<open>filepath\<close>, or \<open>None\<close> when the
  path does not exist.
\<close>

definition load_config :: "string option \<Rightarrow> bool \<Rightarrow> error + handler" where
  "load_config file pc =
     (case file of
        None \<Rightarrow> Inl FileNotFound
      | Some text \<Rightarrow>
          except_configparser
            (case read_string pc (preprocess_file text) of
               Inl err \<Rightarrow> Inl err
             | Inr raw \<Rightarrow>
                 (case clean_sections pc raw {} new_parser (sections raw) of
                    Inl err \<Rightarrow> Inl err
                  | Inr cleaned_config \<Rightarrow> Inr \<lparr>preserve_case = pc, config = cleaned_config\<rparr>)))"

text \<open>
  The loop over \<open>self.config.sections()\<close> that \<open>get_config\<close> and
  \<open>display_config\<close> share: the items of each section.
\<close>

fun section_items ::
  "bool \<Rightarrow> string parser \<Rightarrow> string list \<Rightarrow> error + (string \<times> (string \<times> string) list) list"
where
  "section_items pc p [] = Inr []"
| "section_items pc p (section # rest) =
     (case items pc p section of
        Inl err \<Rightarrow> Inl err
      | Inr its \<Rightarrow>
          (case section_items pc p rest of
             Inl err \<Rightarrow> Inl err
           | Inr rest' \<Rightarrow> Inr ((section, its) # rest')))"

definition get_config :: "handler \<Rightarrow> error + (string \<times> (string \<times> string) list) list" where
  "get_config h = section_items (preserve_case h) (config h) (sections (config h))"



definition list_profiles :: "handler \<Rightarrow> string list" where
  "list_profiles h = sections (config h)"

text \<open>The list \<open>config_str\<close> that \<open>display_config\<close> builds, before it is joined.\<close>

definition config_str :: "(string \<times> (string \<times> string) list) list \<Rightarrow> string list" where
  "config_str cfg =
     concat (map (\<lambda>(section, its).
                    [''['' @ section @ '']''] @ map (\<lambda>(key, v). key @ '' = '' @ v) its @ [[]])
                 cfg)"

definition display_config :: "handler \<Rightarrow> error + string" where
  "display_config h =
     (case section_items (preserve_case h) (config h) (sections (config h)) of
        Inl err \<Rightarrow> Inl err
      | Inr cfg \<Rightarrow> Inr (strip (join [CHR 0x0A] (config_str cfg))))"

section \<open>Notions of the specification\<close>

text \<open>
  The preprocessing as the specification words it: each line of the file loses the
  suffix that starts at its first \<open>;\<close> or \<open>#\<close>, is trimmed, and is dropped when
  nothing is left; the lines that survive are joined with newlines.
\<close>

definition is_comment_char :: "char \<Rightarrow> bool" where
  "is_comment_char c = (c = CHR '';'' \<or> c = CHR ''#'')"

definition strip_comment :: "string \<Rightarrow> string" where
  "strip_comment line = takeWhile (\<lambda>c. \<not> is_comment_char c) line"

definition file_lines :: "string \<Rightarrow> string list" where
  "file_lines text = map (takeWhile (\<lambda>c. c \<noteq> CHR 0x0A)) (readlines text)"

definition spec_preprocess :: "string \<Rightarrow> string" where
  "spec_preprocess text =
     join [CHR 0x0A] (filter (\<lambda>l. l \<noteq> []) (map (\<lambda>l. strip (strip_comment l)) (file_lines text)))"


text \<open>
  A line that holds no entry: it is blank, or its first character after the leading
  whitespace starts a comment.
\<close>

definition blank_or_comment :: "string \<Rightarrow> bool" where
  "blank_or_comment line = (case lstrip line of [] \<Rightarrow> True | c # _ \<Rightarrow> is_comment_char c)"

text \<open>
  What every line that \<open>preprocess_file\<close> lets through has: it is not empty, it
  neither starts nor ends with whitespace, and it holds no newline and no comment
  character.
\<close>

definition clean_line :: "string \<Rightarrow> bool" where
  "clean_line p = (p \<noteq> [] \<and> \<not> isspace (hd p) \<and> \<not> isspace (last p)
                   \<and> (\<forall>c \<in> set p. c \<noteq> CHR 0x0A \<and> \<not> is_comment_char c))"

text \<open>
  The lines that iterating over \<open>'\n'.join(ls)\<close> yields when no element of \<open>ls\<close> is
  empty or holds a newline: every line but the last with its newline.
\<close>

fun stream_lines :: "string list \<Rightarrow> string list" where
  "stream_lines [] = []"
| "stream_lines [x] = [x]"
| "stream_lines (x # y # ys) = (x @ [CHR 0x0A]) # stream_lines (y # ys)"

text \<open>
  What \<open>_read\<close> does with a line that is clean up to its newline: the comment, blank
  line and continuation branches are not taken, and \<open>v\<close> is the line without its
  newline.
\<close>

definition read_clean :: "bool \<Rightarrow> read_state \<Rightarrow> nat \<Rightarrow> string \<Rightarrow> error + read_state" where
  "read_clean pc st lineno line =
     (case SECTCRE_match (strip line) of
        Some name \<Rightarrow> read_header st lineno name
      | None \<Rightarrow>
          (case cursect st of
             None \<Rightarrow> Inl (Configparser (MissingSectionHeaderError lineno line))
           | Some (sectname, r) \<Rightarrow> read_option pc st sectname r lineno line (strip line)))"

fun read_clean_lines :: "bool \<Rightarrow> read_state \<Rightarrow> nat \<Rightarrow> string list \<Rightarrow> error + read_state" where
  "read_clean_lines pc st lineno [] = Inr st"
| "read_clean_lines pc st lineno (line # rest) =
     (case read_clean pc st lineno line of
        Inl err \<Rightarrow> Inl err
      | Inr st' \<Rightarrow> read_clean_lines pc st' (Suc lineno) rest)"

text \<open>A line with an assignment: it holds one of the delimiters \<open>=\<close> and \<open>:\<close>.\<close>

definition has_delimiter :: "string \<Rightarrow> bool" where
  "has_delimiter line = (\<exists>c \<in> set line. is_delim c)"

text \<open>
  What the cleaned parser of a handler is, as \<open>load_config\<close> builds it: its
  dictionaries have no key twice, no section is named \<open>DEFAULT\<close>, and a section with
  the empty name holds no option (\<open>set\<close> stores the options of such a section in the
  defaults).
\<close>

definition wf_config :: "string parser \<Rightarrow> bool" where
  "wf_config p =
     (distinct (sections p) \<and> default_section \<notin> set (sections p)
      \<and> distinct (map fst (p_defaults p))
      \<and> (\<forall>(name, d) \<in> set (p_sections p). distinct (map fst d) \<and> (name = [] \<longrightarrow> d = [])))"

text \<open>The configuration file of the repository's tests (\<open>config_content\<close> in conftest.py).\<close>

definition config_content :: string where
  "config_content =
     concat (map (\<lambda>l. l @ [CHR 0x0A])
       [[], ''[profile1]'', ''key1 = value1'', ''key2 = value2'', [],
        ''[profile2]'', ''keyA = valueA'', ''keyB = valueB'', [],
        ''; This is a comment'', ''# This is another comment'', [],
        ''[profile3]'', ''keyX = valueX'', ''keyY = valueY''])"

text \<open>
  The key and the value that a line of the preprocessed text assigns, both trimmed;
  \<open>None\<close> for a section header and for a line without a delimiter. And the names
  in the section headers of a list of lines, in their order.
\<close>

definition entry :: "string \<Rightarrow> (string \<times> string) option" where
  "entry p =
     (case SECTCRE_match p of
        Some name \<Rightarrow> None
      | None \<Rightarrow>
          (case OPTCRE_match p of
             None \<Rightarrow> None
           | Some (k, vi, v) \<Rightarrow> Some (k, strip v)))"

definition header_names :: "string list \<Rightarrow> string list" where
  "header_names ls = List.map_filter SECTCRE_match ls"

text \<open>The dictionaries of a parser: the defaults and the sections' own.\<close>

definition dicts :: "('v, 'z) parser_scheme \<Rightarrow> (string \<times> 'v) list set" where
  "dicts p = insert (p_defaults p) (snd ` set (p_sections p))"

text \<open>
  The invariant of \<open>_read\<close> on a new parser: no section twice and none named
  \<open>DEFAULT\<close>, every section that exists has been added from this source, the current
  section is the last header's, and no dictionary has a key twice.
\<close>

definition read_inv :: "read_state \<Rightarrow> bool" where
  "read_inv st =
     (distinct (sections st) \<and> default_section \<notin> set (sections st)
      \<and> (\<forall>n \<in> set (sections st). Sect n \<in> elements_added st)
      \<and> (\<forall>s r. cursect st = Some (s, r) \<longrightarrow>
             (r = DefaultsRef \<and> s = default_section) \<or> (r = SectionRef s \<and> s \<in> set (sections st)))
      \<and> (\<forall>d \<in> dicts st. distinct (map fst d)))"

text \<open>The text of a file, from its lines.\<close>

definition file_text :: "string list \<Rightarrow> string" where
  "file_text ls = concat (map (\<lambda>l. l @ [CHR 0x0A]) ls)"

text \<open>
  The pairs of a key and a value that the entries among the lines \<open>ls\<close> give, the key
  after the key-case transform.
\<close>

definition authored :: "bool \<Rightarrow> string list \<Rightarrow> (string \<times> string) set" where
  "authored pc ls = {(optionxform pc k, v) | k v p. p \<in> set ls \<and> entry p = Some (k, v)}"

text \<open>
  The segments of a text between its newlines, \<open>s.split('\n')\<close>: what the lines of a
  stream are apart from a last empty segment.
\<close>

fun split_nl :: "string \<Rightarrow> string list" where
  "split_nl [] = [[]]"
| "split_nl (c # cs) =
     (if c = CHR 0x0A then [] # split_nl cs else (c # hd (split_nl cs)) # tl (split_nl cs))"

text \<open>
  The line that \<open>display_config\<close> writes for an option, as \<open>preprocess_file\<close> leaves
  it, and the lines of a whole configuration after preprocessing.
\<close>

definition entry_line :: "string \<Rightarrow> string \<Rightarrow> string" where
  "entry_line k v = strip (k @ '' = '' @ v)"

definition display_lines :: "(string \<times> (string \<times> string) list) list \<Rightarrow> string list" where
  "display_lines cfg =
     concat (map (\<lambda>(section, its). (''['' @ section @ '']'') # map (\<lambda>(k, v). entry_line k v) its) cfg)"

text \<open>
  What the options and the names of a configuration need for its displayed text to be
  read back as it is: characters that preprocessing keeps, a key and a value that
  the option pattern finds again, no interpolation, and no option line that reads as
  a header.
\<close>

definition plain_char :: "char \<Rightarrow> bool" where
  "plain_char c = (c \<noteq> CHR 0x0A \<and> c \<noteq> CHR 0x0D \<and> \<not> is_comment_char c)"

definition good_entry :: "bool \<Rightarrow> string \<Rightarrow> string \<Rightarrow> bool" where
  "good_entry pc k v =
     (k \<noteq> [] \<and> strip k = k \<and> optionxform pc k = k \<and> (\<forall>c \<in> set k. \<not> is_delim c)
      \<and> strip v = v \<and> CHR ''%'' \<notin> set v \<and> (\<forall>c \<in> set (k @ v). plain_char c)
      \<and> SECTCRE_match (entry_line k v) = None)"

definition good_name :: "bool \<Rightarrow> string \<Rightarrow> bool" where
  "good_name pc c =
     (c \<noteq> [] \<and> c \<noteq> default_section \<and> clean_name pc c = c \<and> (\<forall>x \<in> set c. plain_char x))"

definition good_cfg :: "bool \<Rightarrow> (string \<times> (string \<times> string) list) list \<Rightarrow> bool" where
  "good_cfg pc cfg =
     (distinct (map fst cfg)
      \<and> (\<forall>(c, its) \<in> set cfg. good_name pc c \<and> distinct (map fst its)
            \<and> (\<forall>(k, v) \<in> set its. good_entry pc k v)))"

section \<open>Properties of the text primitives\<close>

lemma isspace_nl [simp]: "isspace (CHR 0x0A)" by (simp add: isspace_def)

lemma set_rstrip: "set (rstrip s) \<subseteq> set s"
  unfolding rstrip_def using set_dropWhileD [of _ isspace "rev s"] by auto

lemma set_lstrip: "set (lstrip s) \<subseteq> set s"
  unfolding lstrip_def using set_dropWhileD [of _ isspace s] by auto

lemma set_strip: "set (strip s) \<subseteq> set s"
  unfolding strip_def using set_rstrip set_lstrip by blast

lemma rstrip_append_space: "\<forall>c \<in> set w. isspace c \<Longrightarrow> rstrip (s @ w) = rstrip s"
  by (simp add: rstrip_def dropWhile_append)

lemma lstrip_append: "lstrip s \<noteq> [] \<Longrightarrow> lstrip (s @ w) = lstrip s @ w"
  unfolding lstrip_def by (induction s) auto

lemma lstrip_all_space: "\<forall>c \<in> set s. isspace c \<Longrightarrow> lstrip s = []"
  by (simp add: lstrip_def)

lemma lstrip_empty_iff: "lstrip s = [] \<longleftrightarrow> (\<forall>c \<in> set s. isspace c)"
  by (simp add: lstrip_def dropWhile_eq_Nil_conv)

lemma rstrip_empty_iff: "rstrip s = [] \<longleftrightarrow> (\<forall>c \<in> set s. isspace c)"
  by (simp add: rstrip_def dropWhile_eq_Nil_conv)

lemma strip_empty_iff: "strip s = [] \<longleftrightarrow> (\<forall>c \<in> set s. isspace c)"
proof
  assume "strip s = []"
  then have "\<forall>c \<in> set (lstrip s). isspace c" by (simp add: strip_def rstrip_empty_iff)
  then have "lstrip s = []" unfolding lstrip_def
    by (metis dropWhile_eq_Nil_conv dropWhile_idem)
  then show "\<forall>c \<in> set s. isspace c" by (simp add: lstrip_empty_iff)
next
  assume a: "\<forall>c \<in> set s. isspace c"
  then have "lstrip s = []" by (simp add: lstrip_empty_iff)
  then show "strip s = []" by (simp add: strip_def rstrip_def)
qed

lemma strip_append_space: "\<forall>c \<in> set w. isspace c \<Longrightarrow> strip (s @ w) = strip s"
proof (cases "lstrip s = []")
  case True
  assume w: "\<forall>c \<in> set w. isspace c"
  from True have "\<forall>c \<in> set s. isspace c" by (simp add: lstrip_empty_iff)
  with w have "\<forall>c \<in> set (s @ w). isspace c" by auto
  then have "strip (s @ w) = []" by (simp only: strip_empty_iff)
  moreover from True have "strip s = []" by (simp add: strip_def rstrip_def)
  ultimately show ?thesis by simp
next
  case False
  assume w: "\<forall>c \<in> set w. isspace c"
  from False show ?thesis by (simp add: strip_def lstrip_append rstrip_append_space w)
qed

lemma lstrip_fixed: "s \<noteq> [] \<Longrightarrow> \<not> isspace (hd s) \<Longrightarrow> lstrip s = s"
  by (cases s) (auto simp: lstrip_def)

lemma rstrip_fixed: "s \<noteq> [] \<Longrightarrow> \<not> isspace (last s) \<Longrightarrow> rstrip s = s"
  by (cases s rule: rev_cases) (auto simp: rstrip_def)

lemma strip_fixed: "s \<noteq> [] \<Longrightarrow> \<not> isspace (hd s) \<Longrightarrow> \<not> isspace (last s) \<Longrightarrow> strip s = s"
  by (simp add: strip_def lstrip_fixed rstrip_fixed)

lemma rstrip_last: "rstrip s \<noteq> [] \<Longrightarrow> \<not> isspace (last (rstrip s))"
  unfolding rstrip_def using hd_dropWhile [of isspace "rev s"] by (simp add: last_rev)

lemma lstrip_hd: "lstrip s \<noteq> [] \<Longrightarrow> \<not> isspace (hd (lstrip s))"
  unfolding lstrip_def using hd_dropWhile [of isspace s] by simp

lemma rstrip_hd: "s \<noteq> [] \<Longrightarrow> \<not> isspace (hd s) \<Longrightarrow> rstrip s \<noteq> [] \<and> hd (rstrip s) = hd s"
  by (cases s) (auto simp: rstrip_def dropWhile_append split: if_splits)

lemma strip_hd_last: "strip s \<noteq> [] \<Longrightarrow> \<not> isspace (hd (strip s)) \<and> \<not> isspace (last (strip s))"
  unfolding strip_def using rstrip_last [of "lstrip s"] rstrip_hd [of "lstrip s"] lstrip_hd [of s]
  by (cases "lstrip s = []") (auto simp: rstrip_def)

lemma strip_strip [simp]: "strip (strip s) = strip s"
  by (cases "strip s = []") (auto simp: strip_fixed strip_hd_last, simp add: strip_def lstrip_def rstrip_def)


lemma splitlines_shape:
  "CHR 0x0A \<notin> set acc \<Longrightarrow> l \<in> set (splitlines acc s) \<Longrightarrow>
   \<exists>b. CHR 0x0A \<notin> set b \<and> (l = b \<or> l = b @ [CHR 0x0A])"
proof (induction s arbitrary: acc)
  case Nil
  then show ?case by (auto split: if_splits)
next
  case (Cons c s)
  show ?case
  proof (cases "c = CHR 0x0A")
    case True
    with Cons.prems have "l = acc @ [CHR 0x0A] \<or> l \<in> set (splitlines [] s)" by auto
    then show ?thesis
    proof
      assume "l = acc @ [CHR 0x0A]"
      with Cons.prems(1) show ?thesis by blast
    next
      assume "l \<in> set (splitlines [] s)"
      then show ?thesis using Cons.IH [of "[]"] by simp
    qed
  next
    case False
    with Cons.prems have "l \<in> set (splitlines (acc @ [c]) s)" by simp
    moreover from False Cons.prems(1) have "CHR 0x0A \<notin> set (acc @ [c])" by simp
    ultimately show ?thesis by (rule Cons.IH [rotated])
  qed
qed

lemma readlines_shape:
  "l \<in> set (readlines text) \<Longrightarrow> \<exists>b. CHR 0x0A \<notin> set b \<and> (l = b \<or> l = b @ [CHR 0x0A])"
  unfolding readlines_def using splitlines_shape [of "[]"] by simp

lemma sub_comment_line:
  assumes c: "c \<noteq> CHR 0x0A" and nl: "nl = [] \<or> nl = [CHR 0x0A]"
  shows "CHR 0x0A \<notin> set b \<Longrightarrow> sub_comment c (b @ nl) = takeWhile (\<lambda>x. x \<noteq> c) b @ nl"
proof (induction b)
  case Nil
  from nl c show ?case by auto
next
  case (Cons x b)
  then have "\<forall>y \<in> set b. y \<noteq> CHR 0x0A" by auto
  then have d: "dropWhile (\<lambda>y. y \<noteq> CHR 0x0A) (b @ nl) = dropWhile (\<lambda>y. y \<noteq> CHR 0x0A) nl"
    by simp
  from nl have d': "dropWhile (\<lambda>y. y \<noteq> CHR 0x0A) nl = nl" by auto
  from Cons have ih: "sub_comment c (b @ nl) = takeWhile (\<lambda>x. x \<noteq> c) b @ nl" by simp
  show ?case
  proof (cases "x = c")
    case True
    then show ?thesis using nl by (simp add: d d')
  next
    case False
    then show ?thesis by (simp add: ih)
  qed
qed

lemma preprocess_line_eq:
  assumes b: "CHR 0x0A \<notin> set b" and nl: "nl = [] \<or> nl = [CHR 0x0A]"
  shows "preprocess_line (b @ nl) = strip (strip_comment b)"
proof -
  have 1: "sub_comment (CHR '';'') (b @ nl) = takeWhile (\<lambda>x. x \<noteq> CHR '';'') b @ nl"
    using b nl by (intro sub_comment_line) simp_all
  have "CHR 0x0A \<notin> set (takeWhile (\<lambda>x. x \<noteq> CHR '';'') b)"
    using b set_takeWhileD by fastforce
  then have 2: "sub_comment (CHR ''#'') (takeWhile (\<lambda>x. x \<noteq> CHR '';'') b @ nl)
      = takeWhile (\<lambda>x. x \<noteq> CHR ''#'') (takeWhile (\<lambda>x. x \<noteq> CHR '';'') b) @ nl"
    using nl by (intro sub_comment_line) simp_all
  have 3: "takeWhile (\<lambda>x. x \<noteq> CHR ''#'') (takeWhile (\<lambda>x. x \<noteq> CHR '';'') b) = strip_comment b"
    by (simp add: takeWhile_takeWhile strip_comment_def is_comment_char_def)
  have "\<forall>c \<in> set nl. isspace c" using nl by auto
  then show ?thesis
    by (simp add: preprocess_line_def 1 2 3 strip_append_space)
qed

lemma preprocess_line_readlines:
  assumes "l \<in> set (readlines text)"
  shows "preprocess_line l = strip (strip_comment (takeWhile (\<lambda>c. c \<noteq> CHR 0x0A) l))"
proof -
  from assms obtain b where b: "CHR 0x0A \<notin> set b" and l: "l = b \<or> l = b @ [CHR 0x0A]"
    using readlines_shape by blast
  from b have nb: "\<forall>x \<in> set b. x \<noteq> CHR 0x0A" by auto
  from l show ?thesis
  proof
    assume lb: "l = b"
    have tw: "takeWhile (\<lambda>c. c \<noteq> CHR 0x0A) b = b" using nb by simp
    have "preprocess_line (b @ []) = strip (strip_comment b)"
      by (rule preprocess_line_eq [OF b]) simp
    then show ?thesis by (simp only: lb tw append_Nil2)
  next
    assume lb: "l = b @ [CHR 0x0A]"
    have tw: "takeWhile (\<lambda>c. c \<noteq> CHR 0x0A) (b @ [CHR 0x0A]) = b" using nb by simp
    have "preprocess_line (b @ [CHR 0x0A]) = strip (strip_comment b)"
      by (rule preprocess_line_eq [OF b]) simp
    then show ?thesis by (simp only: lb tw)
  qed
qed

lemma processed_lines_spec:
  "processed_lines text = filter (\<lambda>l. l \<noteq> []) (map (\<lambda>l. strip (strip_comment l)) (file_lines text))"
proof -
  have "map preprocess_line (readlines text)
      = map (\<lambda>l. strip (strip_comment (takeWhile (\<lambda>c. c \<noteq> CHR 0x0A) l))) (readlines text)"
    by (rule map_cong [OF refl]) (rule preprocess_line_readlines)
  then show ?thesis
    by (simp only: processed_lines_def file_lines_def map_map comp_def)
qed

section \<open>Preprocessing\<close>

text \<open>
  Claim C6. Preprocessing works line by line: each line loses the suffix that starts at
  its first \<open>;\<close> or \<open>#\<close>, wherever that character stands, is trimmed of
  leading and trailing whitespace, and is dropped when it is empty then; the lines
  that remain are joined with newlines in their order. This is \<open>spec_preprocess\<close>,
  and \<open>preprocess_file\<close> computes it on every text. In particular the line
  \<open>keyA = valueA ; trailing comment\<close> becomes \<open>keyA = valueA\<close>.
\<close>

theorem preprocess_file_refines:
  "preprocess_file text = spec_preprocess text
   \<and> preprocess_file ''keyA = valueA ; trailing comment'' = ''keyA = valueA''"
proof
  show "preprocess_file text = spec_preprocess text"
    by (simp add: preprocess_file_def spec_preprocess_def processed_lines_spec)
  show "preprocess_file ''keyA = valueA ; trailing comment'' = ''keyA = valueA''"
    by code_simp
qed

section \<open>Files without entries\<close>

lemma not_space_comment: "is_comment_char c \<Longrightarrow> \<not> isspace c"
  by (auto simp: is_comment_char_def isspace_def)

lemma file_lines_no_newline: "l \<in> set (file_lines text) \<Longrightarrow> CHR 0x0A \<notin> set l"
  unfolding file_lines_def using set_takeWhileD by fastforce

lemma strip_comment_set: "c \<in> set (strip_comment l) \<Longrightarrow> c \<in> set l \<and> \<not> is_comment_char c"
  unfolding strip_comment_def by (rule set_takeWhileD)

lemma processed_lines_clean:
  assumes "p \<in> set (processed_lines text)"
  shows "clean_line p"
proof -
  from assms obtain l where l: "l \<in> set (file_lines text)" and p: "p = strip (strip_comment l)"
    and ne: "p \<noteq> []"
    unfolding processed_lines_spec by auto
  have "\<forall>c \<in> set p. c \<noteq> CHR 0x0A \<and> \<not> is_comment_char c"
  proof
    fix c assume "c \<in> set p"
    then have "c \<in> set (strip_comment l)" using set_strip p by blast
    then have "c \<in> set l \<and> \<not> is_comment_char c" by (rule strip_comment_set)
    with file_lines_no_newline [OF l] show "c \<noteq> CHR 0x0A \<and> \<not> is_comment_char c" by auto
  qed
  moreover have "\<not> isspace (hd p) \<and> \<not> isspace (last p)"
    using strip_hd_last [of "strip_comment l"] ne p by simp
  ultimately show ?thesis using ne by (simp add: clean_line_def)
qed

lemma blank_or_comment_line:
  assumes "blank_or_comment l"
  shows "strip (strip_comment (takeWhile (\<lambda>c. c \<noteq> CHR 0x0A) l)) = []"
proof -
  let ?b = "takeWhile (\<lambda>c. c \<noteq> CHR 0x0A) l"
  have "\<forall>c \<in> set (strip_comment ?b). isspace c"
  proof (cases "lstrip l")
    case Nil
    then have "\<forall>c \<in> set l. isspace c" by (simp add: lstrip_empty_iff)
    then show ?thesis using strip_comment_set set_takeWhileD by fast
  next
    case (Cons c r)
    with assms have c: "is_comment_char c" by (simp add: blank_or_comment_def)
    have l: "l = takeWhile isspace l @ c # r"
      using Cons takeWhile_dropWhile_id [of isspace l] by (simp add: lstrip_def)
    have ws: "\<forall>x \<in> set (takeWhile isspace l). isspace x"
      using set_takeWhileD by fast
    then have ws': "\<forall>x \<in> set (takeWhile isspace l). x \<noteq> CHR 0x0A \<or> True" by simp
    have "strip_comment ?b = takeWhile (\<lambda>x. x \<noteq> CHR 0x0A \<and> \<not> is_comment_char x) l"
      by (simp add: strip_comment_def takeWhile_takeWhile)
    also have "set \<dots> \<subseteq> set (takeWhile isspace l)"
    proof -
      have "set (takeWhile P (ws @ c # r)) \<subseteq> set ws" if "\<not> P c" for P and ws :: string
        using that by (auto simp: takeWhile_append dest: set_takeWhileD)
      from this [of "\<lambda>x. x \<noteq> CHR 0x0A \<and> \<not> is_comment_char x" "takeWhile isspace l"] c l
      show ?thesis by simp
    qed
    finally show ?thesis using ws by blast
  qed
  then show ?thesis by (simp only: strip_empty_iff)
qed

lemma blank_or_comment_processed:
  assumes "\<forall>l \<in> set (readlines text). blank_or_comment l"
  shows "processed_lines text = []"
proof -
  have "\<forall>l \<in> set (readlines text). preprocess_line l = []"
    using assms blank_or_comment_line preprocess_line_readlines by simp
  then show ?thesis by (simp add: processed_lines_def filter_empty_conv)
qed

lemma load_config_no_lines:
  assumes "processed_lines text = []"
  shows "load_config (Some text) pc = Inr \<lparr>preserve_case = pc, config = new_parser\<rparr>"
  using assms
  by (simp add: load_config_def preprocess_file_def read_string_def new_read_state_def
      join_multiline_values_def sections_def new_parser_def except_configparser_def)

text \<open>
  Claim C10. When every line of an existing file is blank or a comment line,
  construction succeeds, and the handler holds the empty configuration:
  \<open>list_profiles\<close> returns the empty list, \<open>get_config\<close> the empty mapping and
  \<open>display_config\<close> the empty string.
\<close>

theorem empty_file_empty_config:
  assumes "\<forall>l \<in> set (readlines text). blank_or_comment l"
  shows "\<exists>h. load_config (Some text) pc = Inr h \<and> list_profiles h = []
           \<and> get_config h = Inr [] \<and> display_config h = Inr []"
proof -
  let ?h = "\<lparr>preserve_case = pc, config = new_parser\<rparr>"
  have "load_config (Some text) pc = Inr ?h"
    by (rule load_config_no_lines [OF blank_or_comment_processed [OF assms]])
  moreover have "list_profiles ?h = []" by (simp add: list_profiles_def sections_def new_parser_def)
  moreover have "get_config ?h = Inr []" by (simp add: get_config_def sections_def new_parser_def)
  moreover have "display_config ?h = Inr []"
    by (simp add: display_config_def sections_def new_parser_def config_str_def strip_def lstrip_def rstrip_def)
  ultimately show ?thesis by blast
qed

theorem empty_file_empty_config_witness:
  "\<exists>h. load_config (Some (''; a comment'' @ [CHR 0x0A] @ ''   '' @ [CHR 0x0A] @ '' # another'')) False = Inr h
       \<and> list_profiles h = [] \<and> get_config h = Inr [] \<and> display_config h = Inr []"
proof -
  have h: "\<forall>l \<in> set (readlines (''; a comment'' @ [CHR 0x0A] @ ''   '' @ [CHR 0x0A] @ '' # another'')).
      blank_or_comment l"
    by code_simp
  from empty_file_empty_config [OF h] show ?thesis .
qed

section \<open>Reading the preprocessed text\<close>

lemma splitlines_append:
  "CHR 0x0A \<notin> set x \<Longrightarrow> splitlines acc (x @ rest) = splitlines (acc @ x) rest"
  by (induction x arbitrary: acc) auto

lemma splitlines_join:
  "\<forall>l \<in> set ls. l \<noteq> [] \<and> CHR 0x0A \<notin> set l \<Longrightarrow>
   splitlines [] (join [CHR 0x0A] ls) = stream_lines ls"
proof (induction ls rule: stream_lines.induct)
  case 1
  show ?case by simp
next
  case (2 x)
  then have "splitlines [] (x @ []) = splitlines ([] @ x) []"
    by (intro splitlines_append) simp
  with 2 show ?case by simp
next
  case (3 x y ys)
  then have "splitlines [] (x @ CHR 0x0A # join [CHR 0x0A] (y # ys))
      = splitlines ([] @ x) (CHR 0x0A # join [CHR 0x0A] (y # ys))"
    by (intro splitlines_append) simp
  with 3 show ?case by simp
qed

lemma clean_line_stream: "clean_line p \<Longrightarrow> p \<noteq> [] \<and> CHR 0x0A \<notin> set p"
  by (auto simp: clean_line_def)

lemma stream_preprocess_file:
  "splitlines [] (preprocess_file text) = stream_lines (processed_lines text)"
  unfolding preprocess_file_def
  by (rule splitlines_join) (use processed_lines_clean clean_line_stream in blast)

lemma stream_lines_shape:
  "l \<in> set (stream_lines ls) \<Longrightarrow> \<exists>p \<in> set ls. l = p \<or> l = p @ [CHR 0x0A]"
  by (induction ls rule: stream_lines.induct) auto

lemma strip_clean: "clean_line p \<Longrightarrow> strip p = p"
  by (simp add: clean_line_def strip_fixed)

lemma strip_clean_nl: "clean_line p \<Longrightarrow> strip (p @ [CHR 0x0A]) = p"
  using strip_append_space [of "[CHR 0x0A]" p] by (simp add: strip_clean)

lemma map_strip_stream:
  "\<forall>p \<in> set ls. clean_line p \<Longrightarrow> map strip (stream_lines ls) = ls"
  by (induction ls rule: stream_lines.induct) (simp_all add: strip_clean strip_clean_nl)

lemma length_stream_lines [simp]: "length (stream_lines ls) = length ls"
  by (induction ls rule: stream_lines.induct) simp_all

lemma read_line_clean:
  assumes p: "clean_line p" and l: "l = p \<or> l = p @ [CHR 0x0A]" and i: "indent_level st = 0"
  shows "read_line pc st n l = read_clean pc st n l"
proof -
  from p l have s: "strip l = p" using strip_clean strip_clean_nl by auto
  from p obtain c q where pc: "p = c # q" and c: "\<not> isspace c" "\<not> is_comment_char c"
    by (cases p) (auto simp: clean_line_def)
  from pc c s have f: "\<not> full_line_comment l"
    by (simp add: full_line_comment_def is_comment_char_def)
  from l pc c have t: "takeWhile isspace l = []" by auto
  from i have st: "st\<lparr>indent_level := 0\<rparr> = st" by simp
  show ?thesis
    by (simp add: read_line_def read_clean_def f s pc [symmetric] t i st Let_def del: strip_strip)
       (simp add: pc)
qed


lemma update_ref_indent [simp]: "indent_level (update_ref r f st) = indent_level st"
  by (cases r) (simp_all add: update_ref_def)

lemma read_header_indent: "read_header st n name = Inr st' \<Longrightarrow> indent_level st' = indent_level st"
  by (auto simp: read_header_def split: if_splits)

lemma read_option_indent:
  "read_option pc st s r n l v = Inr st' \<Longrightarrow> indent_level st' = indent_level st"
  by (auto simp: read_option_def handle_error_def Let_def split: option.splits if_splits)

lemma read_clean_indent: "read_clean pc st n l = Inr st' \<Longrightarrow> indent_level st' = indent_level st"
  by (auto simp: read_clean_def read_header_indent read_option_indent split: option.splits)

lemma read_lines_clean:
  assumes "\<forall>l \<in> set ls. \<exists>p. clean_line p \<and> (l = p \<or> l = p @ [CHR 0x0A])"
    and "indent_level st = 0"
  shows "read_lines pc st n ls = read_clean_lines pc st n ls"
  using assms
proof (induction ls arbitrary: st n)
  case Nil
  show ?case by simp
next
  case (Cons l ls)
  then obtain p where "clean_line p" "l = p \<or> l = p @ [CHR 0x0A]" by auto
  then have 1: "read_line pc st n l = read_clean pc st n l"
    using Cons.prems(2) by (rule read_line_clean)
  show ?case
  proof (cases "read_clean pc st n l")
    case (Inl err)
    with 1 show ?thesis by simp
  next
    case (Inr st')
    then have "indent_level st' = 0" using read_clean_indent Cons.prems(2) by simp
    with Cons have "read_lines pc st' (Suc n) ls = read_clean_lines pc st' (Suc n) ls" by simp
    with 1 Inr show ?thesis by simp
  qed
qed

lemma stream_processed_shape:
  assumes "l \<in> set (stream_lines (processed_lines text))"
  shows "\<exists>p. clean_line p \<and> (l = p \<or> l = p @ [CHR 0x0A])"
  using stream_lines_shape [OF assms] processed_lines_clean by blast

lemma read_string_clean:
  "read_string pc (preprocess_file text) =
     (case read_clean_lines pc new_read_state 1 (stream_lines (processed_lines text)) of
        Inl err \<Rightarrow> Inl err
      | Inr st \<Rightarrow>
          if e st \<noteq> [] then Inl (Configparser (ParsingError (e st)))
          else Inr (join_multiline_values st))"
proof -
  have "read_lines pc new_read_state 1 (stream_lines (processed_lines text))
      = read_clean_lines pc new_read_state 1 (stream_lines (processed_lines text))"
    by (rule read_lines_clean) (use stream_processed_shape in \<open>simp_all add: new_read_state_def\<close>)
  then show ?thesis by (simp add: read_string_def stream_preprocess_file)
qed

section \<open>Construction errors\<close>

text \<open>
  Claim C3, amended. A section header is what the parser's pattern \<open>SECTCRE\<close> matches:
  a line that starts with \<open>[\<close> and has a \<open>]\<close> after at least one more character,
  whatever follows that \<open>]\<close>. When a line of the preprocessed text holds a delimiter
  \<open>=\<close> or \<open>:\<close> and neither it nor a line before it is such a header, construction
  fails with the parse error that wraps the cause, which is the parser's
  \<open>MissingSectionHeaderError\<close> for the first line of the preprocessed text.
\<close>

theorem assignment_before_header:
  assumes "i < length (processed_lines text)"
    and "has_delimiter (processed_lines text ! i)"
    and "\<forall>j \<le> i. SECTCRE_match (processed_lines text ! j) = None"
  shows "\<exists>line. load_config (Some text) pc = Inl (ParseError (MissingSectionHeaderError 1 line))
           \<and> strip line = processed_lines text ! 0"
proof -
  from assms(1) obtain p ps where ls: "processed_lines text = p # ps"
    by (cases "processed_lines text") auto
  then have p: "clean_line p" using processed_lines_clean [of p "text"] by simp
  from assms(3) ls have h: "SECTCRE_match p = None" by auto
  obtain l rest where sl: "stream_lines (p # ps) = l # rest" and l: "l = p \<or> l = p @ [CHR 0x0A]"
    by (cases ps) auto
  from p l have s: "strip l = p" using strip_clean strip_clean_nl by auto
  have "read_clean pc new_read_state 1 l = Inl (Configparser (MissingSectionHeaderError 1 l))"
    by (simp add: read_clean_def s h new_read_state_def)
  then have "read_string pc (preprocess_file text) = Inl (Configparser (MissingSectionHeaderError 1 l))"
    by (simp add: read_string_clean ls sl)
  then have "load_config (Some text) pc = Inl (ParseError (MissingSectionHeaderError 1 l))"
    by (simp add: load_config_def except_configparser_def)
  with s ls show ?thesis by auto
qed

theorem assignment_before_header_witness:
  "\<exists>line. load_config (Some (''key = value'' @ [CHR 0x0A] @ ''[a]'')) False
            = Inl (ParseError (MissingSectionHeaderError 1 line))
          \<and> strip line = processed_lines (''key = value'' @ [CHR 0x0A] @ ''[a]'') ! 0"
proof -
  have 1: "0 < length (processed_lines (''key = value'' @ [CHR 0x0A] @ ''[a]''))"
    by code_simp
  have 2: "has_delimiter (processed_lines (''key = value'' @ [CHR 0x0A] @ ''[a]'') ! 0)"
    unfolding has_delimiter_def by code_simp
  have 3: "\<forall>j \<le> 0. SECTCRE_match (processed_lines (''key = value'' @ [CHR 0x0A] @ ''[a]'') ! j) = None"
    by code_simp
  from assignment_before_header [OF 1 2 3] show ?thesis .
qed

text \<open>
  The claim as the specification states it fails on a line that holds a delimiter and
  is matched as a header all the same: \<open>[a] = 5\<close> is the first line of its file, no
  section header comes before it, and construction succeeds with the profile \<open>a\<close>,
  which has no option.
\<close>

theorem assignment_before_header_counterexample:
  "processed_lines ''[a] = 5'' = [''[a] = 5'']
   \<and> has_delimiter ''[a] = 5''
   \<and> load_config (Some ''[a] = 5'') False
       = Inr \<lparr>preserve_case = False, config = \<lparr>p_sections = [(''a'', [])], p_defaults = []\<rparr>\<rparr>
   \<and> list_profiles \<lparr>preserve_case = False, config = \<lparr>p_sections = [(''a'', [])], p_defaults = []\<rparr>\<rparr>
       = [''a'']"
proof -
  have 1: "processed_lines ''[a] = 5'' = [''[a] = 5'']"
    by code_simp
  have 2: "has_delimiter ''[a] = 5''"
    unfolding has_delimiter_def by code_simp
  have 3: "load_config (Some ''[a] = 5'') False
       = Inr \<lparr>preserve_case = False, config = \<lparr>p_sections = [(''a'', [])], p_defaults = []\<rparr>\<rparr>"
    by code_simp
  show ?thesis
    using 1 2 3 by (simp add: list_profiles_def sections_def)
qed

section \<open>Interpolation\<close>


lemma interpolate_some_plain:
  "\<not> depth > MAX_INTERPOLATION_DEPTH \<Longrightarrow> CHR ''%'' \<notin> set rest \<Longrightarrow>
   interpolate_some pc opt sec m depth accum rest = Inr (accum @ rest)"
  by (subst interpolate_some.simps) simp






section \<open>The cleaned parser\<close>

lemma map_fst_map_entry [simp]: "map fst (AList.map_entry k f xs) = map fst xs"
  by (induction xs) auto

lemma set_map_entry:
  "(n, d) \<in> set (AList.map_entry k f xs) \<Longrightarrow>
   (n, d) \<in> set xs \<or> (n = k \<and> (\<exists>d0. (n, d0) \<in> set xs \<and> d = f d0))"
  by (induction xs) (auto split: if_splits)

lemma wf_new_parser: "wf_config new_parser"
  by (simp add: wf_config_def new_parser_def sections_def)

lemma add_section_wf:
  "add_section p s = Inr p' \<Longrightarrow> wf_config p \<Longrightarrow> wf_config p'"
  by (auto simp: add_section_def wf_config_def sections_def split: if_splits)

lemma add_section_sections:
  "add_section p s = Inr p' \<Longrightarrow> sections p' = sections p @ [s] \<and> p_defaults p' = p_defaults p"
  by (auto simp: add_section_def sections_def split: if_splits)

lemma set_option_sections:
  "set_option pc p s k v = Inr p' \<Longrightarrow> sections p' = sections p"
  by (auto simp: set_option_def sections_def split: sum.splits if_splits)

lemma set_option_wf:
  assumes "set_option pc p s k v = Inr p'" and "wf_config p"
  shows "wf_config p'"
proof (cases "s = [] \<or> s = default_section")
  case True
  with assms(1) obtain v' where "p' = p\<lparr>p_defaults := AList.update (optionxform pc k) v' (p_defaults p)\<rparr>"
    by (auto simp: set_option_def split: sum.splits)
  with assms(2) show ?thesis
    by (simp add: wf_config_def sections_def distinct_update)
next
  case False
  with assms(1) obtain v' where
    p': "p' = p\<lparr>p_sections := AList.map_entry s (AList.update (optionxform pc k) v') (p_sections p)\<rparr>"
    by (auto simp: set_option_def split: sum.splits if_splits)
  have "distinct (map fst d) \<and> (n = [] \<longrightarrow> d = [])" if "(n, d) \<in> set (p_sections p')" for n d
  proof -
    from that p' have "(n, d) \<in> set (p_sections p)
        \<or> (n = s \<and> (\<exists>d0. (n, d0) \<in> set (p_sections p) \<and> d = AList.update (optionxform pc k) v' d0))"
      using set_map_entry by fastforce
    with assms(2) False show ?thesis
      by (auto simp: wf_config_def distinct_update)
  qed
  with assms(2) p' show ?thesis
    by (auto simp: wf_config_def sections_def)
qed

lemma clean_items_wf:
  "clean_items pc s seen p its = Inr p' \<Longrightarrow> wf_config p \<Longrightarrow>
   wf_config p' \<and> sections p' = sections p"
proof (induction its arbitrary: seen p)
  case Nil
  then show ?case by simp
next
  case (Cons kv its)
  obtain k v where kv: "kv = (k, v)" by (cases kv)
  from Cons.prems(1) kv obtain p1 where
    1: "set_option pc p s (strip k) (strip v) = Inr p1"
    and 2: "clean_items pc s (insert (strip k) seen) p1 its = Inr p'"
    by (auto simp: Let_def split: if_splits sum.splits)
  from set_option_wf [OF 1 Cons.prems(2)] set_option_sections [OF 1] Cons.IH [OF 2]
  show ?case by simp
qed

lemma clean_sections_wf:
  "clean_sections pc raw seen p secs = Inr p' \<Longrightarrow> wf_config p \<Longrightarrow> wf_config p'"
proof (induction secs arbitrary: seen p)
  case Nil
  then show ?case by simp
next
  case (Cons s secs)
  let ?c = "clean_name pc s"
  from Cons.prems(1) obtain p1 its p2 where
    1: "(if \<not> contains p ?c then add_section p ?c else Inr p) = Inr p1"
    and 2: "clean_items pc ?c {} p1 its = Inr p2"
    and 3: "clean_sections pc raw (insert ?c seen) p2 secs = Inr p'"
    by (auto simp: Let_def split: if_splits sum.splits)
  from 1 Cons.prems(2) have "wf_config p1"
    by (auto simp: add_section_wf split: if_splits)
  with clean_items_wf [OF 2] have "wf_config p2" by simp
  with Cons.IH [OF 3] show ?case .
qed

lemma load_config_handler:
  assumes "load_config file pc = Inr h"
  shows "wf_config (config h) \<and> preserve_case h = pc"
proof -
  from assms obtain raw cleaned where
    "clean_sections pc raw {} new_parser (sections raw) = Inr cleaned"
    and "h = \<lparr>preserve_case = pc, config = cleaned\<rparr>"
    by (auto simp: load_config_def except_configparser_def split: option.splits sum.splits error.splits)
  with clean_sections_wf [OF _ wf_new_parser] show ?thesis by auto
qed

section \<open>The accessors\<close>










lemma load_config_content:
  "load_config (Some config_content) False =
     Inr \<lparr>preserve_case = False,
          config = \<lparr>p_sections =
                      [(''profile1'', [(''key1'', ''value1''), (''key2'', ''value2'')]),
                       (''profile2'', [(''keya'', ''valueA''), (''keyb'', ''valueB'')]),
                       (''profile3'', [(''keyx'', ''valueX''), (''keyy'', ''valueY'')])],
                    p_defaults = []\<rparr>\<rparr>"
  by code_simp










section \<open>The invariant of reading\<close>

lemma dicts_update_ref:
  "d \<in> dicts (update_ref r f st) \<Longrightarrow> d \<in> dicts st \<or> (\<exists>d0 \<in> dicts st. d = f d0)"
proof (cases r)
  case DefaultsRef
  assume "d \<in> dicts (update_ref r f st)"
  with DefaultsRef show ?thesis by (auto simp: update_ref_def dicts_def)
next
  case (SectionRef name)
  assume "d \<in> dicts (update_ref r f st)"
  with SectionRef have "d = p_defaults st \<or> (\<exists>n. (n, d) \<in> set (AList.map_entry name f (p_sections st)))"
    by (auto simp: update_ref_def dicts_def)
  then show ?thesis
    using set_map_entry [of _ d name f "p_sections st"] by (force simp: dicts_def)
qed

lemma sections_update_ref [simp]: "sections (update_ref r f st) = sections st"
  by (cases r) (simp_all add: update_ref_def sections_def)

lemma elements_update_ref [simp]: "elements_added (update_ref r f st) = elements_added st"
  by (cases r) (simp_all add: update_ref_def)

lemma cursect_update_ref [simp]: "cursect (update_ref r f st) = cursect st"
  by (cases r) (simp_all add: update_ref_def)

lemma e_update_ref [simp]: "e (update_ref r f st) = e st"
  by (cases r) (simp_all add: update_ref_def)

lemma sections_fields [simp]:
  "sections (st\<lparr>elements_added := a\<rparr>) = sections st"
  "sections (st\<lparr>optname := b\<rparr>) = sections st"
  "sections (st\<lparr>cursect := c\<rparr>) = sections st"
  "sections (st\<lparr>e := x\<rparr>) = sections st"
  "sections (st\<lparr>indent_level := i\<rparr>) = sections st"
  by (simp_all add: sections_def)

lemma dicts_fields [simp]:
  "dicts (st\<lparr>elements_added := a\<rparr>) = dicts st"
  "dicts (st\<lparr>optname := b\<rparr>) = dicts st"
  "dicts (st\<lparr>cursect := c\<rparr>) = dicts st"
  "dicts (st\<lparr>e := x\<rparr>) = dicts st"
  "dicts (st\<lparr>indent_level := i\<rparr>) = dicts st"
  by (simp_all add: dicts_def)

lemma read_inv_new: "read_inv new_read_state"
  by (simp add: read_inv_def new_read_state_def sections_def dicts_def)

lemma read_header_inv:
  assumes "read_header st n name = Inr st'" and "read_inv st"
  shows "read_inv st'"
proof -
  from assms(1) consider
      (old) "name \<in> set (sections st)" "Sect name \<notin> elements_added st"
    | (default) "name \<notin> set (sections st)" "name = default_section"
        "st' = st\<lparr>cursect := Some (name, DefaultsRef), optname := None\<rparr>"
    | (new) "name \<notin> set (sections st)" "name \<noteq> default_section"
        "st' = st\<lparr>p_sections := p_sections st @ [(name, [])],
                 cursect := Some (name, SectionRef name),
                 elements_added := insert (Sect name) (elements_added st),
                 optname := None\<rparr>"
    by (auto simp: read_header_def split: if_splits)
  then show ?thesis
  proof cases
    case old
    with assms(2) show ?thesis by (simp add: read_inv_def)
  next
    case default
    with assms(2) show ?thesis by (simp add: read_inv_def sections_def dicts_def)
  next
    case new
    with assms(2) show ?thesis by (auto simp: read_inv_def sections_def dicts_def)
  qed
qed

lemma read_option_inv:
  assumes "read_option pc st s r n l v = Inr st'" and "read_inv st" and "cursect st = Some (s, r)"
  shows "read_inv st' \<and> cursect st' = Some (s, r)"
proof (cases "OPTCRE_match v")
  case None
  with assms(1) have "st' = st\<lparr>e := e st @ [(n, l)]\<rparr>"
    by (simp add: read_option_def handle_error_def)
  with assms(2,3) show ?thesis
    by (simp add: read_inv_def sections_def dicts_def)
next
  case (Some m)
  obtain name vi optval where m: "m = (name, vi, optval)" by (cases m)
  define st1 where "st1 = (if name = [] then handle_error st n l else st)"
  define name' where "name' = optionxform pc (rstrip name)"
  from assms(1) Some m have st': "st' = update_ref r (AList.update name' [strip optval])
       (st1\<lparr>elements_added := insert (Opt s name') (elements_added st1), optname := Some name'\<rparr>)"
    by (auto simp: read_option_def Let_def st1_def name'_def split: if_splits)
  have st1: "sections st1 = sections st" "dicts st1 = dicts st" "cursect st1 = cursect st"
    "elements_added st1 = elements_added st"
    by (simp_all add: st1_def handle_error_def)
  have d: "distinct (map fst d)" if "d \<in> dicts st'" for d
  proof -
    from that st' have "d \<in> dicts st1 \<or> (\<exists>d0 \<in> dicts st1. d = AList.update name' [strip optval] d0)"
      using dicts_update_ref
        [of d r _ "st1\<lparr>elements_added := insert (Opt s name') (elements_added st1), optname := Some name'\<rparr>"]
      by simp
    with assms(2) st1 show ?thesis by (auto simp: read_inv_def distinct_update)
  qed
  have "sections st' = sections st" "elements_added st' = insert (Opt s name') (elements_added st)"
    "cursect st' = Some (s, r)"
    using st1 assms(3) by (simp_all add: st')
  with assms(2,3) d show ?thesis
    unfolding read_inv_def by auto
qed


lemma read_header_error: "read_header st n name = Inl err \<Longrightarrow> \<exists>c. err = Configparser c"
  by (auto simp: read_header_def split: if_splits)

lemma read_option_error: "read_option pc st s r n l v = Inl err \<Longrightarrow> \<exists>c. err = Configparser c"
  by (auto simp: read_option_def Let_def split: option.splits if_splits)

lemma read_clean_error: "read_clean pc st n l = Inl err \<Longrightarrow> \<exists>c. err = Configparser c"
  by (auto simp: read_clean_def split: option.splits dest: read_header_error read_option_error)

lemma read_clean_lines_error:
  "read_clean_lines pc st n ls = Inl err \<Longrightarrow> \<exists>c. err = Configparser c"
  by (induction ls arbitrary: st n) (auto split: sum.splits dest: read_clean_error)

lemma read_clean_inv:
  assumes "read_clean pc st n l = Inr st'" and "read_inv st"
  shows "read_inv st'"
proof (cases "SECTCRE_match (strip l)")
  case (Some name)
  with assms show ?thesis by (auto simp: read_clean_def dest: read_header_inv)
next
  case None
  with assms(1) obtain s r where "cursect st = Some (s, r)"
    and "read_option pc st s r n l (strip l) = Inr st'"
    by (auto simp: read_clean_def split: option.splits)
  with read_option_inv assms(2) show ?thesis by blast
qed

lemma read_clean_lines_inv:
  "read_clean_lines pc st n ls = Inr st' \<Longrightarrow> read_inv st \<Longrightarrow> read_inv st'"
  by (induction ls arbitrary: st n) (auto split: sum.splits dest: read_clean_inv)

lemma read_clean_lines_append:
  "read_clean_lines pc st n (xs @ ys) =
     (case read_clean_lines pc st n xs of
        Inl err \<Rightarrow> Inl err
      | Inr st' \<Rightarrow> read_clean_lines pc st' (n + length xs) ys)"
  by (induction xs arbitrary: st n) (auto split: sum.splits)

subsection \<open>The sections that reading makes\<close>

lemma read_clean_sections:
  assumes "read_clean pc st n l = Inr st'" and "read_inv st"
  shows "sections st' = sections st @ filter (\<lambda>x. x \<noteq> default_section) (header_names [strip l])"
proof (cases "SECTCRE_match (strip l)")
  case (Some name)
  with assms(1) have h: "read_header st n name = Inr st'" by (simp add: read_clean_def)
  from assms(2) have "name \<in> set (sections st) \<Longrightarrow> Sect name \<in> elements_added st"
    by (simp add: read_inv_def)
  with h have "sections st' = sections st @ (if name = default_section then [] else [name])"
    by (auto simp: read_header_def sections_def split: if_splits)
  with Some show ?thesis by (simp add: header_names_def List.map_filter_simps)
next
  case None
  with assms(1) obtain s r where o: "read_option pc st s r n l (strip l) = Inr st'"
    by (auto simp: read_clean_def split: option.splits)
  then have "sections st' = sections st"
    by (auto simp: read_option_def handle_error_def Let_def split: option.splits if_splits)
  with None show ?thesis by (simp add: header_names_def List.map_filter_simps)
qed

lemma header_names_append: "header_names (xs @ ys) = header_names xs @ header_names ys"
  by (simp add: header_names_def List.map_filter_def)

lemma read_clean_lines_sections:
  "read_clean_lines pc st n ls = Inr st' \<Longrightarrow> read_inv st \<Longrightarrow>
   sections st' = sections st @ filter (\<lambda>x. x \<noteq> default_section) (header_names (map strip ls))"
proof (induction ls arbitrary: st n)
  case Nil
  then show ?case by (simp add: header_names_def List.map_filter_simps)
next
  case (Cons l ls)
  from Cons.prems(1) obtain st1 where 1: "read_clean pc st n l = Inr st1"
    and 2: "read_clean_lines pc st1 (Suc n) ls = Inr st'"
    by (auto split: sum.splits)
  from read_clean_inv [OF 1 Cons.prems(2)] have i: "read_inv st1" .
  have "header_names (map strip (l # ls)) = header_names [strip l] @ header_names (map strip ls)"
    using header_names_append [of "[strip l]" "map strip ls"] by simp
  with Cons.IH [OF 2 i] read_clean_sections [OF 1 Cons.prems(2)] show ?case by simp
qed

lemma sections_join_multiline [simp]: "sections (join_multiline_values st) = sections st"
  by (simp add: join_multiline_values_def sections_def comp_def case_prod_unfold)

lemma read_string_sections:
  assumes "read_string pc (preprocess_file text) = Inr raw"
  shows "sections raw = filter (\<lambda>x. x \<noteq> default_section) (header_names (processed_lines text))
       \<and> distinct (sections raw)"
proof -
  from assms obtain st where
    st: "read_clean_lines pc new_read_state 1 (stream_lines (processed_lines text)) = Inr st"
    and raw: "raw = join_multiline_values st"
    by (auto simp: read_string_clean split: sum.splits if_splits)
  have "map strip (stream_lines (processed_lines text)) = processed_lines text"
    by (rule map_strip_stream) (use processed_lines_clean in blast)
  moreover have "sections new_read_state = []"
    by (simp add: new_read_state_def sections_def)
  ultimately show ?thesis
    using read_clean_lines_sections [OF st read_inv_new] read_clean_lines_inv [OF st read_inv_new]
    by (simp add: raw read_inv_def)
qed

lemma clean_items_sections:
  "clean_items pc s seen p its = Inr p' \<Longrightarrow> sections p' = sections p"
proof (induction its arbitrary: seen p)
  case Nil
  then show ?case by simp
next
  case (Cons kv its)
  obtain k v where kv: "kv = (k, v)" by (cases kv)
  from Cons.prems kv obtain p1 where
    1: "set_option pc p s (strip k) (strip v) = Inr p1"
    and 2: "clean_items pc s (insert (strip k) seen) p1 its = Inr p'"
    by (auto simp: Let_def split: if_splits sum.splits)
  from set_option_sections [OF 1] Cons.IH [OF 2] show ?case by simp
qed

lemma clean_sections_sections:
  "clean_sections pc raw seen p secs = Inr p' \<Longrightarrow> set (sections p) \<subseteq> seen \<Longrightarrow>
   sections p' = sections p @ filter (\<lambda>x. x \<noteq> default_section) (map (clean_name pc) secs)"
proof (induction secs arbitrary: seen p)
  case Nil
  then show ?case by simp
next
  case (Cons s secs)
  let ?c = "clean_name pc s"
  from Cons.prems(1) obtain p1 its p2 where
    0: "?c \<notin> seen"
    and 1: "(if \<not> contains p ?c then add_section p ?c else Inr p) = Inr p1"
    and 2: "clean_items pc ?c {} p1 its = Inr p2"
    and 3: "clean_sections pc raw (insert ?c seen) p2 secs = Inr p'"
    by (auto simp: Let_def split: if_splits sum.splits)
  from 0 Cons.prems(2) have "contains p ?c \<longleftrightarrow> ?c = default_section"
    by (auto simp: contains_def has_section_def)
  with 1 have p1: "sections p1 = sections p @ (if ?c = default_section then [] else [?c])"
    by (auto simp: add_section_sections split: if_splits)
  have p2: "sections p2 = sections p1"
    by (rule clean_items_sections [OF 2])
  from p1 p2 Cons.prems(2) have "set (sections p2) \<subseteq> insert ?c seen" by auto
  from Cons.IH [OF 3 this] p1 p2 show ?case by simp
qed


lemma load_config_Inr:
  assumes "load_config (Some text) pc = Inr h"
  obtains raw cleaned where "read_string pc (preprocess_file text) = Inr raw"
    and "clean_sections pc raw {} new_parser (sections raw) = Inr cleaned"
    and "h = \<lparr>preserve_case = pc, config = cleaned\<rparr>"
  using assms
  by (auto simp: load_config_def except_configparser_def split: sum.splits error.splits)

section \<open>The profiles of a handler\<close>

text \<open>
  Claim C5, amended. For a file on which construction succeeds, \<open>list_profiles\<close>
  returns the normalized names (trimmed; lowercased unless \<open>preserve_case\<close>) of the
  section headers of the file in their order, without the headers named \<open>DEFAULT\<close>
  and without the names that normalize to \<open>DEFAULT\<close>; no name is returned twice.
\<close>

theorem list_profiles_headers:
  assumes "load_config (Some text) pc = Inr h"
  shows "list_profiles h =
           filter (\<lambda>n. n \<noteq> ''DEFAULT'')
             (map (clean_name pc)
                (filter (\<lambda>n. n \<noteq> ''DEFAULT'') (header_names (processed_lines text))))
       \<and> distinct (list_profiles h)"
proof -
  from assms obtain raw cleaned where r: "read_string pc (preprocess_file text) = Inr raw"
    and c: "clean_sections pc raw {} new_parser (sections raw) = Inr cleaned"
    and h: "h = \<lparr>preserve_case = pc, config = cleaned\<rparr>"
    by (rule load_config_Inr)
  have "sections (new_parser :: string parser) = []"
    by (simp add: new_parser_def sections_def)
  with clean_sections_sections [OF c] have
    "sections cleaned = filter (\<lambda>x. x \<noteq> default_section) (map (clean_name pc) (sections raw))"
    by simp
  with read_string_sections [OF r] have
    "list_profiles h =
           filter (\<lambda>n. n \<noteq> ''DEFAULT'')
             (map (clean_name pc)
                (filter (\<lambda>n. n \<noteq> ''DEFAULT'') (header_names (processed_lines text))))"
    by (simp add: list_profiles_def h default_section_def)
  moreover from load_config_handler [OF assms] have "distinct (list_profiles h)"
    by (simp add: wf_config_def list_profiles_def)
  ultimately show ?thesis by simp
qed

theorem list_profiles_headers_witness:
  "\<exists>h. load_config (Some config_content) False = Inr h
      \<and> list_profiles h = [''profile1'', ''profile2'', ''profile3'']"
proof -
  have "filter (\<lambda>n. n \<noteq> ''DEFAULT'')
             (map (clean_name False)
                (filter (\<lambda>n. n \<noteq> ''DEFAULT'') (header_names (processed_lines config_content))))
      = [''profile1'', ''profile2'', ''profile3'']"
    by code_simp
  with list_profiles_headers [OF load_config_content] load_config_content
  show ?thesis by simp
qed

text \<open>
  The claim as the specification states it fails on a file with a header \<open>[DEFAULT]\<close>:
  the parser takes it for its default section, which is no section of the handler.
\<close>

theorem list_profiles_counterexample:
  "\<exists>h. load_config (Some (''[DEFAULT]'' @ [CHR 0x0A] @ ''k = v'' @ [CHR 0x0A] @ ''[a]'')) False = Inr h
      \<and> list_profiles h = [''a'']
      \<and> map (clean_name False)
           (header_names (processed_lines (''[DEFAULT]'' @ [CHR 0x0A] @ ''k = v'' @ [CHR 0x0A] @ ''[a]'')))
         = [''default'', ''a'']"
proof -
  have "load_config (Some (''[DEFAULT]'' @ [CHR 0x0A] @ ''k = v'' @ [CHR 0x0A] @ ''[a]'')) False
      = Inr \<lparr>preserve_case = False, config = \<lparr>p_sections = [(''a'', [(''k'', ''v'')])], p_defaults = []\<rparr>\<rparr>"
    by code_simp
  moreover have "list_profiles \<lparr>preserve_case = False, config = \<lparr>p_sections = [(''a'', [(''k'', ''v'')])], p_defaults = []\<rparr>\<rparr> = [''a'']"
    by code_simp
  moreover have "map (clean_name False)
           (header_names (processed_lines (''[DEFAULT]'' @ [CHR 0x0A] @ ''k = v'' @ [CHR 0x0A] @ ''[a]'')))
         = [''default'', ''a'']"
    by code_simp
  ultimately show ?thesis by simp
qed

section \<open>Duplicate keys\<close>

lemma rstrip_rstrip [simp]: "rstrip (rstrip s) = rstrip s"
  by (cases "rstrip s = []") (simp_all add: rstrip_def rstrip_fixed rstrip_last)

lemma OPTCRE_match_key: "OPTCRE_match v = Some (k, vi, v0) \<Longrightarrow> rstrip k = k"
  by (auto simp: OPTCRE_match_def split: list.splits)

lemma entry_SomeD:
  "entry p = Some (k, v) \<Longrightarrow>
   SECTCRE_match p = None \<and> (\<exists>vi v0. OPTCRE_match p = Some (k, vi, v0) \<and> v = strip v0)"
  by (auto simp: entry_def split: option.splits)

lemma read_option_duplicate:
  assumes "OPTCRE_match v = Some (k, vi, v0)" and "Opt s (optionxform pc k) \<in> elements_added st"
  shows "read_option pc st s r n l v = Inl (Configparser (DuplicateOptionError s (optionxform pc k) n))"
  using assms OPTCRE_match_key [OF assms(1)]
  by (auto simp: read_option_def Let_def handle_error_def)

lemma read_option_elements:
  assumes "read_option pc st s r n l v = Inr st'"
  shows "elements_added st \<subseteq> elements_added st'
       \<and> (\<forall>k vi v0. OPTCRE_match v = Some (k, vi, v0) \<longrightarrow> Opt s (optionxform pc k) \<in> elements_added st')"
proof (cases "OPTCRE_match v")
  case None
  with assms show ?thesis by (auto simp: read_option_def handle_error_def)
next
  case (Some m)
  obtain k vi v0 where m: "m = (k, vi, v0)" by (cases m)
  from Some m have "rstrip k = k" using OPTCRE_match_key by simp
  with assms Some m show ?thesis
    by (auto simp: read_option_def Let_def handle_error_def split: if_splits)
qed

lemma read_body:
  "read_clean_lines pc st n body = Inr st' \<Longrightarrow> cursect st = Some (s, r) \<Longrightarrow> read_inv st \<Longrightarrow>
   \<forall>b \<in> set body. SECTCRE_match (strip b) = None \<Longrightarrow>
   cursect st' = Some (s, r) \<and> elements_added st \<subseteq> elements_added st'
   \<and> (\<forall>b \<in> set body. \<forall>k vi v0. OPTCRE_match (strip b) = Some (k, vi, v0) \<longrightarrow>
         Opt s (optionxform pc k) \<in> elements_added st')"
proof (induction body arbitrary: st n)
  case Nil
  then show ?case by simp
next
  case (Cons b body)
  from Cons.prems(1) obtain st1 where 1: "read_clean pc st n b = Inr st1"
    and 2: "read_clean_lines pc st1 (Suc n) body = Inr st'"
    by (auto split: sum.splits)
  from Cons.prems(4) have nb: "SECTCRE_match (strip b) = None" by simp
  with 1 Cons.prems(2) have o: "read_option pc st s r n b (strip b) = Inr st1"
    by (simp add: read_clean_def)
  from read_option_inv [OF o Cons.prems(3) Cons.prems(2)]
  have i1: "read_inv st1" and c1: "cursect st1 = Some (s, r)" by simp_all
  from Cons.prems(4) have "\<forall>b \<in> set body. SECTCRE_match (strip b) = None" by simp
  from Cons.IH [OF 2 c1 i1 this] read_option_elements [OF o]
  show ?case by auto
qed

lemma read_header_cursect:
  "read_header st n name = Inr st' \<Longrightarrow> \<exists>r. cursect st' = Some (name, r)"
  by (auto simp: read_header_def split: if_splits)

lemma stream_lines_append:
  "stream_lines (xs @ y # ys) = map (\<lambda>x. x @ [CHR 0x0A]) xs @ stream_lines (y # ys)"
  by (induction xs rule: stream_lines.induct) simp_all

lemma stream_lines_Cons: "\<exists>l' rest. stream_lines (l # post) = l' # rest \<and> (l' = l \<or> l' = l @ [CHR 0x0A])"
  by (cases post) simp_all


lemma read_duplicate:
  assumes ls: "\<forall>p \<in> set (pre @ hdr # body @ [l]). clean_line p"
    and hdr: "SECTCRE_match hdr = Some s"
    and body: "\<forall>b \<in> set body. SECTCRE_match b = None"
    and dup: "\<exists>b \<in> set body. \<exists>v. entry b = Some (k, v)"
    and l: "entry l = Some (k, v)"
    and l': "strip l' = l"
    and A: "A = map (\<lambda>x. x @ [CHR 0x0A]) (pre @ hdr # body)"
  shows "\<exists>c. read_clean_lines pc new_read_state 1 (A @ l' # rest) = Inl (Configparser c)
           \<and> (\<forall>st. read_clean_lines pc new_read_state 1 A = Inr st \<longrightarrow>
                 c = DuplicateOptionError s (optionxform pc k) (length pre + length body + 2))"
proof (cases "read_clean_lines pc new_read_state 1 A")
  case (Inl err)
  then obtain c where "err = Configparser c" using read_clean_lines_error by blast
  with Inl show ?thesis by (simp add: read_clean_lines_append)
next
  case (Inr st)
  let ?nl = "\<lambda>x. x @ [CHR 0x0A]"
  have A': "A = map ?nl pre @ ?nl hdr # map ?nl body" by (simp add: A)
  from Inr obtain st0 where 0: "read_clean_lines pc new_read_state 1 (map ?nl pre) = Inr st0"
    and 1: "read_clean_lines pc st0 (1 + length pre) (?nl hdr # map ?nl body) = Inr st"
    by (auto simp: A' read_clean_lines_append split: sum.splits)
  from 1 obtain st1 where 2: "read_clean pc st0 (1 + length pre) (?nl hdr) = Inr st1"
    and 3: "read_clean_lines pc st1 (Suc (1 + length pre)) (map ?nl body) = Inr st"
    by (auto split: sum.splits)
  have i0: "read_inv st0" by (rule read_clean_lines_inv [OF 0 read_inv_new])
  have i1: "read_inv st1" by (rule read_clean_inv [OF 2 i0])
  from ls have sh: "strip (?nl hdr) = hdr" by (simp add: strip_clean_nl)
  with 2 hdr obtain r where c1: "cursect st1 = Some (s, r)"
    using read_header_cursect by (fastforce simp: read_clean_def)
  from ls have sb: "\<forall>b \<in> set body. strip (?nl b) = b" by (simp add: strip_clean_nl)
  with body have nb: "\<forall>b \<in> set (map ?nl body). SECTCRE_match (strip b) = None" by simp
  from read_body [OF 3 c1 i1 nb]
  have c: "cursect st = Some (s, r)"
    and el: "\<forall>b \<in> set (map ?nl body). \<forall>k vi v0. OPTCRE_match (strip b) = Some (k, vi, v0) \<longrightarrow>
         Opt s (optionxform pc k) \<in> elements_added st"
    by simp_all
  from dup obtain b vb where b: "b \<in> set body" and eb: "entry b = Some (k, vb)" by blast
  from entry_SomeD [OF eb] obtain vi v0 where "OPTCRE_match b = Some (k, vi, v0)" by blast
  with el b sb have o: "Opt s (optionxform pc k) \<in> elements_added st" by fastforce
  from entry_SomeD [OF l] obtain vi' v0' where nl: "SECTCRE_match l = None"
    and ol: "OPTCRE_match l = Some (k, vi', v0')" by blast
  have "read_clean pc st (1 + length A) l'
      = Inl (Configparser (DuplicateOptionError s (optionxform pc k) (1 + length A)))"
    by (simp add: read_clean_def l' nl c read_option_duplicate [OF ol o])
  moreover have "read_clean_lines pc new_read_state 1 (A @ l' # rest)
      = read_clean_lines pc st (1 + length A) (l' # rest)"
    using Inr by (subst read_clean_lines_append) simp
  moreover have "1 + length A = length pre + length body + 2"
    by (simp add: A)
  ultimately show ?thesis using Inr by simp
qed

text \<open>
  What the strict parser does with a key that is repeated: when a section header is
  followed, with no other header between, by two entries whose trimmed keys are equal,
  \<open>read_string\<close> raises and construction fails with the parse error. When the
  parser reads the lines before the second entry without raising, the wrapped cause
  is its \<open>DuplicateOptionError\<close>, which names the key (lowercased unless
  \<open>preserve_case\<close>), the section as its header has it, and the number of the line in
  the preprocessed text. So the loop of \<open>load_config\<close> that compares the keys of a
  section never sees such a file.
\<close>

lemma duplicate_key_rejected:
  assumes "processed_lines text = pre @ hdr # body @ l # post"
    and "SECTCRE_match hdr = Some s"
    and "\<forall>b \<in> set body. SECTCRE_match b = None"
    and "\<exists>b \<in> set body. \<exists>v. entry b = Some (k, v)"
    and "\<exists>v. entry l = Some (k, v)"
  shows "\<exists>c. load_config (Some text) pc = Inl (ParseError c)
           \<and> (\<forall>st. read_lines pc new_read_state 1
                       (take (length pre + length body + 1) (splitlines [] (preprocess_file text)))
                     = Inr st \<longrightarrow>
                 c = DuplicateOptionError s (optionxform pc k) (length pre + length body + 2))"
proof -
  let ?nl = "\<lambda>x. x @ [CHR 0x0A]"
  define A where "A = map ?nl (pre @ hdr # body)"
  from assms(5) obtain v where el: "entry l = Some (k, v)" by blast
  have cl: "\<forall>p \<in> set (processed_lines text). clean_line p"
    using processed_lines_clean by blast
  with assms(1) have cl': "\<forall>p \<in> set (pre @ hdr # body @ [l]). clean_line p" by auto
  obtain l' rest where s: "stream_lines (l # post) = l' # rest" and l': "l' = l \<or> l' = l @ [CHR 0x0A]"
    using stream_lines_Cons by blast
  from cl' l' have sl: "strip l' = l" using strip_clean strip_clean_nl by auto
  have S: "splitlines [] (preprocess_file text) = A @ l' # rest"
    using stream_lines_append [of "pre @ hdr # body" l post]
    by (simp add: stream_preprocess_file assms(1) A_def s)
  have tk: "take (length pre + length body + 1) (splitlines [] (preprocess_file text)) = A"
    by (simp add: S A_def)
  from read_duplicate [OF cl' assms(2) assms(3) assms(4) el sl A_def, of pc rest]
  obtain c where c: "read_clean_lines pc new_read_state 1 (A @ l' # rest) = Inl (Configparser c)"
    and c': "\<forall>st. read_clean_lines pc new_read_state 1 A = Inr st \<longrightarrow>
                 c = DuplicateOptionError s (optionxform pc k) (length pre + length body + 2)"
    by blast
  have "read_string pc (preprocess_file text) = Inl (Configparser c)"
    using c by (simp add: read_string_clean stream_preprocess_file [symmetric] S)
  then have 1: "load_config (Some text) pc = Inl (ParseError c)"
    by (simp add: load_config_def except_configparser_def)
  have "\<forall>x \<in> set A. \<exists>p. clean_line p \<and> (x = p \<or> x = p @ [CHR 0x0A])"
    using cl' by (auto simp: A_def)
  then have "read_lines pc new_read_state 1 A = read_clean_lines pc new_read_state 1 A"
    by (rule read_lines_clean) (simp add: new_read_state_def)
  with c' tk 1 show ?thesis by simp
qed


lemma duplicate_key_rejected_example:
  "load_config
     (Some (file_text [''[top]'', ''[profile1]'', ''key1 = x'', ''other = z'', ''key1 = y'', ''last = 1'']))
     True
   = Inl (ParseError (DuplicateOptionError ''profile1'' ''key1'' 5))"
proof -
  let ?t = "file_text [''[top]'', ''[profile1]'', ''key1 = x'', ''other = z'', ''key1 = y'', ''last = 1'']"
  have 1: "processed_lines ?t = [''[top]''] @ ''[profile1]'' # [''key1 = x'', ''other = z''] @ ''key1 = y'' # [''last = 1'']"
    by code_simp
  have 2: "SECTCRE_match ''[profile1]'' = Some ''profile1''"
    by code_simp
  have 3: "\<forall>b \<in> set [''key1 = x'', ''other = z'']. SECTCRE_match b = None"
    by code_simp
  have "entry ''key1 = x'' = Some (''key1'', ''x'')"
    by code_simp
  then have 4: "\<exists>b \<in> set [''key1 = x'', ''other = z'']. \<exists>v. entry b = Some (''key1'', v)"
    by simp
  have "entry ''key1 = y'' = Some (''key1'', ''y'')"
    by code_simp
  then have 5: "\<exists>v. entry ''key1 = y'' = Some (''key1'', v)"
    by simp
  let ?r = "read_lines True new_read_state 1
         (take (length [''[top]''] + length [''key1 = x'', ''other = z''] + 1)
            (splitlines [] (preprocess_file ?t)))"
  have "\<not> isl ?r"
    by code_simp
  then obtain st where 6: "?r = Inr st"
    by (cases ?r) auto
  from duplicate_key_rejected [OF 1 2 3 4 5, of True] 6
  have "load_config (Some ?t) True
      = Inl (ParseError (DuplicateOptionError ''profile1'' (optionxform True ''key1'')
               (length [''[top]''] + length [''key1 = x'', ''other = z''] + 2)))"
    by auto
  then show ?thesis by (simp add: optionxform_def)
qed

section \<open>Lowercasing\<close>

lemma lower_char_cases:
  "lower_char c = c \<or>
   (lower_char c = char_of (of_char c + 32 :: nat)
    \<and> ((65 \<le> (of_char c :: nat) \<and> (of_char c :: nat) \<le> 90)
        \<or> (192 \<le> (of_char c :: nat) \<and> (of_char c :: nat) \<le> 222 \<and> (of_char c :: nat) \<noteq> 215)))"
  by (auto simp: lower_char_def Let_def)

lemma of_char_lower_char:
  "(of_char (lower_char c) :: nat) =
     (if (65 \<le> (of_char c :: nat) \<and> (of_char c :: nat) \<le> 90)
         \<or> (192 \<le> (of_char c :: nat) \<and> (of_char c :: nat) \<le> 222 \<and> (of_char c :: nat) \<noteq> 215)
      then of_char c + 32 else of_char c)"
  by (auto simp: lower_char_def Let_def)

lemma lower_char_idem [simp]: "lower_char (lower_char c) = lower_char c"
proof -
  have "(of_char (lower_char (lower_char c)) :: nat) = of_char (lower_char c)"
    by (simp add: of_char_lower_char)
  then show ?thesis by (simp only: of_char_eq_iff)
qed

lemma lower_idem [simp]: "lower (lower s) = lower s"
  by (simp add: lower_def)

lemma lower_char_fixed:
  assumes "(of_char x :: nat) < 65 \<or> (90 < (of_char x :: nat) \<and> (of_char x :: nat) < 97)
           \<or> (122 < (of_char x :: nat) \<and> (of_char x :: nat) < 192)"
  shows "lower_char c = x \<longleftrightarrow> c = x"
proof
  assume "lower_char c = x"
  then have "(of_char (lower_char c) :: nat) = of_char x" by simp
  with assms have "(of_char c :: nat) = of_char x"
    by (auto simp: of_char_lower_char split: if_splits)
  then show "c = x" by (simp only: of_char_eq_iff)
next
  assume "c = x"
  with assms show "lower_char c = x" by (auto simp: lower_char_def Let_def)
qed

lemma isspace_lower_char [simp]: "isspace (lower_char c) \<longleftrightarrow> isspace c"
  unfolding isspace_def by (simp add: lower_char_fixed)

lemma lstrip_lower: "lstrip (lower s) = lower (lstrip s)"
  by (simp add: lstrip_def lower_def dropWhile_map comp_def)

lemma rstrip_lower: "rstrip (lower s) = lower (rstrip s)"
  by (simp add: rstrip_def lower_def dropWhile_map comp_def rev_map)

lemma strip_lower: "strip (lower s) = lower (strip s)"
  by (simp add: strip_def lstrip_lower rstrip_lower)

lemma strip_optionxform: "strip (optionxform pc s) = optionxform pc (strip s)"
  by (simp add: optionxform_def strip_lower)

lemma optionxform_idem [simp]: "optionxform pc (optionxform pc s) = optionxform pc s"
  by (simp add: optionxform_def)

lemma clean_name_idem [simp]: "clean_name pc (clean_name pc s) = clean_name pc s"
  by (simp add: clean_name_def strip_lower)

lemma lstrip_rstrip_clean:
  assumes "s \<noteq> []" and "\<not> isspace (hd s)"
  shows "strip (rstrip (takeWhile P s)) = rstrip (takeWhile P s)"
proof (cases "takeWhile P s = []")
  case True
  then show ?thesis by (simp add: strip_def lstrip_def rstrip_def)
next
  case False
  then have "hd (takeWhile P s) = hd s" by (cases s) (auto split: if_splits)
  with False assms have r: "rstrip (takeWhile P s) \<noteq> []" "hd (rstrip (takeWhile P s)) = hd s"
    using rstrip_hd [of "takeWhile P s"] by simp_all
  with assms have "lstrip (rstrip (takeWhile P s)) = rstrip (takeWhile P s)"
    by (simp add: lstrip_fixed)
  then show ?thesis by (simp add: strip_def)
qed

lemma entry_clean:
  assumes "clean_line p" and "entry p = Some (k, v)"
  shows "strip k = k \<and> strip v = v"
proof -
  from entry_SomeD [OF assms(2)] obtain vi v0 where o: "OPTCRE_match p = Some (k, vi, v0)"
    and v: "v = strip v0" by blast
  from o have "k = rstrip (takeWhile (\<lambda>c. \<not> is_delim c) p)"
    by (auto simp: OPTCRE_match_def split: list.splits)
  with assms(1) have "strip k = k"
    using lstrip_rstrip_clean [of p] by (simp add: clean_line_def)
  with v show ?thesis by simp
qed

lemma authored_clean:
  assumes "\<forall>p \<in> set ls. clean_line p" and "(k, v) \<in> authored pc ls"
  shows "strip k = k \<and> strip v = v \<and> optionxform pc k = k"
proof -
  from assms(2) obtain k0 p where "p \<in> set ls" "entry p = Some (k0, v)" "k = optionxform pc k0"
    by (auto simp: authored_def)
  with assms(1) entry_clean [of p k0 v] show ?thesis
    by (simp add: strip_optionxform)
qed

section \<open>Where the options of the parser come from\<close>

lemma set_update_subset: "x \<in> set (AList.update k v d) \<Longrightarrow> x = (k, v) \<or> x \<in> set d"
  by (induction d) (auto split: if_splits)

lemma read_header_dicts:
  "read_header st n name = Inr st' \<Longrightarrow> dicts st' \<subseteq> insert [] (dicts st)"
  by (auto simp: read_header_def dicts_def split: if_splits)

lemma read_option_dicts:
  assumes "read_option pc st s r n l v = Inr st'" and "d \<in> dicts st'"
  shows "d \<in> dicts st \<or>
         (\<exists>d0 \<in> dicts st. \<exists>k vi v0. OPTCRE_match v = Some (k, vi, v0)
            \<and> d = AList.update (optionxform pc k) [strip v0] d0)"
proof (cases "OPTCRE_match v")
  case None
  with assms show ?thesis by (auto simp: read_option_def handle_error_def)
next
  case (Some m)
  obtain k vi v0 where m: "m = (k, vi, v0)" by (cases m)
  from Some m have k: "rstrip k = k" using OPTCRE_match_key by simp
  define st1 where "st1 = (if k = [] then handle_error st n l else st)"
  from assms(1) Some m k have "st' = update_ref r (AList.update (optionxform pc k) [strip v0])
       (st1\<lparr>elements_added := insert (Opt s (optionxform pc k)) (elements_added st1),
            optname := Some (optionxform pc k)\<rparr>)"
    by (auto simp: read_option_def Let_def st1_def split: if_splits)
  with assms(2) have "d \<in> dicts st1 \<or> (\<exists>d0 \<in> dicts st1. d = AList.update (optionxform pc k) [strip v0] d0)"
    using dicts_update_ref
      [of d r _ "st1\<lparr>elements_added := insert (Opt s (optionxform pc k)) (elements_added st1),
            optname := Some (optionxform pc k)\<rparr>"]
    by simp
  moreover have "dicts st1 = dicts st" by (simp add: st1_def handle_error_def)
  ultimately show ?thesis using Some m by auto
qed

lemma read_clean_authored:
  assumes "read_clean pc st n l = Inr st'" and "strip l \<in> set ls"
    and "\<forall>d \<in> dicts st. \<forall>(k, vs) \<in> set d. \<exists>v. vs = [v] \<and> (k, v) \<in> authored pc ls"
  shows "\<forall>d \<in> dicts st'. \<forall>(k, vs) \<in> set d. \<exists>v. vs = [v] \<and> (k, v) \<in> authored pc ls"
proof (cases "SECTCRE_match (strip l)")
  case (Some name)
  with assms(1) have sub: "dicts st' \<subseteq> insert [] (dicts st)"
    by (simp add: read_clean_def read_header_dicts)
  show ?thesis
  proof (intro ballI)
    fix d kvs assume d: "d \<in> dicts st'" and kvs: "kvs \<in> set d"
    from kvs have "d \<noteq> []" by auto
    with d sub have "d \<in> dicts st" by auto
    with assms(3) kvs show "case kvs of (k, vs) \<Rightarrow> \<exists>v. vs = [v] \<and> (k, v) \<in> authored pc ls"
      by blast
  qed
next
  case None
  with assms(1) obtain s r where o: "read_option pc st s r n l (strip l) = Inr st'"
    by (auto simp: read_clean_def split: option.splits)
  show ?thesis
  proof (intro ballI)
    fix d kvs assume d: "d \<in> dicts st'" and kvs: "kvs \<in> set d"
    from read_option_dicts [OF o d] show "case kvs of (k, vs) \<Rightarrow> \<exists>v. vs = [v] \<and> (k, v) \<in> authored pc ls"
    proof
      assume "d \<in> dicts st"
      with assms(3) kvs show ?thesis by blast
    next
      assume "\<exists>d0 \<in> dicts st. \<exists>k vi v0. OPTCRE_match (strip l) = Some (k, vi, v0)
            \<and> d = AList.update (optionxform pc k) [strip v0] d0"
      then obtain d0 k vi v0 where d0: "d0 \<in> dicts st" and m: "OPTCRE_match (strip l) = Some (k, vi, v0)"
        and du: "d = AList.update (optionxform pc k) [strip v0] d0" by blast
      from None m have "entry (strip l) = Some (k, strip v0)" by (simp add: entry_def)
      with assms(2) have a: "(optionxform pc k, strip v0) \<in> authored pc ls"
        by (auto simp: authored_def)
      from kvs du have "kvs = (optionxform pc k, [strip v0]) \<or> kvs \<in> set d0"
        using set_update_subset by fast
      with a assms(3) d0 show ?thesis by auto
    qed
  qed
qed

lemma read_clean_lines_authored:
  "read_clean_lines pc st n L = Inr st' \<Longrightarrow> strip ` set L \<subseteq> set ls \<Longrightarrow>
   \<forall>d \<in> dicts st. \<forall>(k, vs) \<in> set d. \<exists>v. vs = [v] \<and> (k, v) \<in> authored pc ls \<Longrightarrow>
   \<forall>d \<in> dicts st'. \<forall>(k, vs) \<in> set d. \<exists>v. vs = [v] \<and> (k, v) \<in> authored pc ls"
proof (induction L arbitrary: st n)
  case Nil
  then show ?case by simp
next
  case (Cons l L)
  from Cons.prems(1) obtain st1 where 1: "read_clean pc st n l = Inr st1"
    and 2: "read_clean_lines pc st1 (Suc n) L = Inr st'"
    by (auto split: sum.splits)
  from Cons.prems(2) have l: "strip l \<in> set ls" and L: "strip ` set L \<subseteq> set ls" by auto
  from read_clean_authored [OF 1 l Cons.prems(3)] Cons.IH [OF 2 L] show ?case by blast
qed


lemma optionxform_Nil [simp]: "optionxform pc k = [] \<longleftrightarrow> k = []"
  by (simp add: optionxform_def lower_def)

lemma read_clean_e:
  assumes "read_clean pc st n l = Inr st'"
    and "(\<exists>d \<in> dicts st. [] \<in> fst ` set d) \<longrightarrow> e st \<noteq> []"
  shows "(\<exists>d \<in> dicts st'. [] \<in> fst ` set d) \<longrightarrow> e st' \<noteq> []"
proof (cases "SECTCRE_match (strip l)")
  case (Some name)
  with assms(1) have h: "read_header st n name = Inr st'" by (simp add: read_clean_def)
  then have "e st' = e st" by (auto simp: read_header_def split: if_splits)
  moreover from h have sub: "dicts st' \<subseteq> insert [] (dicts st)" by (rule read_header_dicts)
  moreover have "\<exists>d \<in> dicts st. [] \<in> fst ` set d" if "\<exists>d \<in> dicts st'. [] \<in> fst ` set d"
  proof -
    from that obtain d where d: "d \<in> dicts st'" "[] \<in> fst ` set d" by blast
    then have "d \<noteq> []" by auto
    with d sub show ?thesis by blast
  qed
  ultimately show ?thesis using assms(2) by auto
next
  case None
  with assms(1) obtain s r where o: "read_option pc st s r n l (strip l) = Inr st'"
    by (auto simp: read_clean_def split: option.splits)
  have mono: "e st \<noteq> [] \<Longrightarrow> e st' \<noteq> []"
    using o by (auto simp: read_option_def Let_def handle_error_def split: option.splits if_splits)
  show ?thesis
  proof
    assume "\<exists>d \<in> dicts st'. [] \<in> fst ` set d"
    then obtain d vs where d: "d \<in> dicts st'" and k: "([], vs) \<in> set d" by force
    from read_option_dicts [OF o d] show "e st' \<noteq> []"
    proof
      assume "d \<in> dicts st"
      with k assms(2) have "e st \<noteq> []" by force
      then show ?thesis by (rule mono)
    next
      assume "\<exists>d0 \<in> dicts st. \<exists>k vi v0. OPTCRE_match (strip l) = Some (k, vi, v0)
            \<and> d = AList.update (optionxform pc k) [strip v0] d0"
      then obtain d0 k' vi v0 where d0: "d0 \<in> dicts st" and m: "OPTCRE_match (strip l) = Some (k', vi, v0)"
        and du: "d = AList.update (optionxform pc k') [strip v0] d0" by blast
      from k du have "([], vs) = (optionxform pc k', [strip v0]) \<or> ([], vs) \<in> set d0"
        using set_update_subset by fast
      then show ?thesis
      proof
        assume "([], vs) = (optionxform pc k', [strip v0])"
        then have "optionxform pc k' = []" by simp
        then have "k' = []" by simp
        with o m show ?thesis
          by (auto simp: read_option_def Let_def handle_error_def split: if_splits)
      next
        assume "([], vs) \<in> set d0"
        with d0 assms(2) have "e st \<noteq> []" by force
        then show ?thesis by (rule mono)
      qed
    qed
  qed
qed

lemma read_clean_lines_e:
  "read_clean_lines pc st n L = Inr st' \<Longrightarrow>
   (\<exists>d \<in> dicts st. [] \<in> fst ` set d) \<longrightarrow> e st \<noteq> [] \<Longrightarrow>
   (\<exists>d \<in> dicts st'. [] \<in> fst ` set d) \<longrightarrow> e st' \<noteq> []"
proof (induction L arbitrary: st n)
  case Nil
  then show ?case by simp
next
  case (Cons l L)
  from Cons.prems(1) obtain st1 where 1: "read_clean pc st n l = Inr st1"
    and 2: "read_clean_lines pc st1 (Suc n) L = Inr st'"
    by (auto split: sum.splits)
  from read_clean_e [OF 1 Cons.prems(2)] Cons.IH [OF 2] show ?case by blast
qed

lemma join_value_single: "strip v = v \<Longrightarrow> join_value [v] = v"
  by (simp add: join_value_def strip_def) (metis rstrip_rstrip)

lemma dicts_join_multiline:
  "dicts (join_multiline_values st) = (map (\<lambda>(k, val). (k, join_value val))) ` dicts st"
  by (auto simp: dicts_def join_multiline_values_def image_iff) force+

text \<open>
  What \<open>read_string\<close> returns for a preprocessed text: the sections are the headers of
  the text but those named \<open>DEFAULT\<close>, each once; every option is an entry of the
  text; no key is empty or stands twice in its section.
\<close>

lemma read_string_raw:
  assumes "read_string pc (preprocess_file text) = Inr raw"
  shows "\<forall>d \<in> dicts raw. distinct (map fst d) \<and> set d \<subseteq> authored pc (processed_lines text)
           \<and> [] \<notin> fst ` set d"
    and "default_section \<notin> set (sections raw)"
proof -
  let ?ls = "processed_lines text"
  from assms obtain st where
    st: "read_clean_lines pc new_read_state 1 (stream_lines ?ls) = Inr st"
    and e: "e st = []" and raw: "raw = join_multiline_values st"
    by (auto simp: read_string_clean split: sum.splits if_splits)
  have cl: "\<forall>p \<in> set ?ls. clean_line p" using processed_lines_clean by blast
  then have ms: "map strip (stream_lines ?ls) = ?ls" by (rule map_strip_stream)
  then have sub: "strip ` set (stream_lines ?ls) \<subseteq> set ?ls" by (metis set_map subset_refl)
  have d0: "dicts new_read_state = {[]}" by (simp add: dicts_def new_read_state_def)
  have inv: "read_inv st" by (rule read_clean_lines_inv [OF st read_inv_new])
  have au: "\<forall>d \<in> dicts st. \<forall>(k, vs) \<in> set d. \<exists>v. vs = [v] \<and> (k, v) \<in> authored pc ?ls"
    by (rule read_clean_lines_authored [OF st sub]) (simp add: d0)
  have ne: "\<forall>d \<in> dicts st. [] \<notin> fst ` set d"
    using read_clean_lines_e [OF st] e by (simp add: d0)
  show "default_section \<notin> set (sections raw)"
    using inv by (simp add: raw read_inv_def)
  show "\<forall>d \<in> dicts raw. distinct (map fst d) \<and> set d \<subseteq> authored pc ?ls \<and> [] \<notin> fst ` set d"
  proof
    fix d assume "d \<in> dicts raw"
    then obtain d' where d': "d' \<in> dicts st" and d: "d = map (\<lambda>(k, val). (k, join_value val)) d'"
      by (auto simp: raw dicts_join_multiline)
    have k: "map fst d = map fst d'" by (simp add: d comp_def case_prod_unfold)
    have "set d \<subseteq> authored pc ?ls"
    proof
      fix x assume "x \<in> set d"
      then obtain k vs where kv: "(k, vs) \<in> set d'" and x: "x = (k, join_value vs)"
        by (auto simp: d)
      with au d' obtain v where v: "vs = [v]" "(k, v) \<in> authored pc ?ls" by fastforce
      with authored_clean [OF cl] have "strip v = v" by blast
      with v x show "x \<in> authored pc ?ls" by (simp add: join_value_single)
    qed
    moreover from inv d' have "distinct (map fst d')" by (simp add: read_inv_def)
    moreover from ne d' have "[] \<notin> fst ` set d'" by blast
    ultimately show "distinct (map fst d) \<and> set d \<subseteq> authored pc ?ls \<and> [] \<notin> fst ` set d"
      using k by (metis set_map)
  qed
qed

section \<open>The validation loop\<close>

lemma set_dict_update: "set (dict_update D S) \<subseteq> set D \<union> set S"
proof (induction S arbitrary: D)
  case Nil
  then show ?case by (simp add: dict_update_def)
next
  case (Cons kv S)
  obtain k v where kv: "kv = (k, v)" by (cases kv)
  have "dict_update D (kv # S) = dict_update (AList.update k v D) S"
    by (simp add: dict_update_def kv)
  with Cons.IH [of "AList.update k v D"] kv show ?case
    using set_update_subset [of _ k v D] by auto
qed

lemma distinct_dict_update: "distinct (map fst D) \<Longrightarrow> distinct (map fst (dict_update D S))"
proof (induction S arbitrary: D)
  case Nil
  then show ?case by (simp add: dict_update_def)
next
  case (Cons kv S)
  obtain k v where kv: "kv = (k, v)" by (cases kv)
  have "dict_update D (kv # S) = dict_update (AList.update k v D) S"
    by (simp add: dict_update_def kv)
  with Cons.IH [of "AList.update k v D"] Cons.prems show ?case
    by (simp add: distinct_update)
qed

lemma items_raw_section:
  assumes "s \<in> set (sections raw)"
  obtains S where "S \<in> dicts raw" and "map_of (p_sections raw) s = Some S"
    and "items_raw raw s = Inr (dict_update (p_defaults raw) S)"
proof -
  from assms have "map_of (p_sections raw) s \<noteq> None"
    by (simp add: sections_def map_of_eq_None_iff)
  then obtain S where m: "map_of (p_sections raw) s = Some S"
    by blast
  then have "(s, S) \<in> set (p_sections raw)" by (rule map_of_SomeD)
  then have "S \<in> dicts raw" by (force simp: dicts_def)
  with m that show ?thesis by (simp add: items_raw_def)
qed

lemma before_set_Inr: "before_set v = Inr v' \<Longrightarrow> v' = v"
  by (auto simp: before_set_def Let_def split: if_splits)

lemma set_option_error:
  assumes "set_option pc p s k v = Inl err"
    and "s \<in> set (sections p) \<or> s = [] \<or> s = default_section"
  shows "\<exists>x. err = InvalidInterpolation x"
  using assms
  by (auto simp: set_option_def before_set_def Let_def split: sum.splits if_splits)

lemma clean_items_error:
  "clean_items pc c seen p its = Inl err \<Longrightarrow>
   c \<in> set (sections p) \<or> c = [] \<or> c = default_section \<Longrightarrow>
   distinct (map (\<lambda>kv. strip (fst kv)) its) \<Longrightarrow> (\<lambda>kv. strip (fst kv)) ` set its \<inter> seen = {} \<Longrightarrow>
   \<exists>x. err = InvalidInterpolation x"
proof (induction its arbitrary: seen p)
  case Nil
  then show ?case by simp
next
  case (Cons kv its)
  obtain k v where kv: "kv = (k, v)" by (cases kv)
  from Cons.prems(4) kv have ns: "strip k \<notin> seen" by auto
  show ?case
  proof (cases "set_option pc p c (strip k) (strip v)")
    case (Inl err')
    with Cons.prems(1) kv ns have "err = err'" by (simp add: Let_def)
    with Inl set_option_error [OF _ Cons.prems(2)] show ?thesis by blast
  next
    case (Inr p1)
    with Cons.prems(1) kv ns have 1: "clean_items pc c (insert (strip k) seen) p1 its = Inl err"
      by (simp add: Let_def)
    from set_option_sections [OF Inr] Cons.prems(2)
    have 2: "c \<in> set (sections p1) \<or> c = [] \<or> c = default_section" by simp
    from Cons.prems(3) have 3: "distinct (map (\<lambda>kv. strip (fst kv)) its)" by simp
    from Cons.prems(3,4) kv have 4: "(\<lambda>kv. strip (fst kv)) ` set its \<inter> insert (strip k) seen = {}"
      by auto
    from Cons.IH [OF 1 2 3 4] show ?thesis .
  qed
qed

lemma clean_sections_step:
  assumes "set (sections p) \<subseteq> seen" and "clean_name pc s \<notin> seen"
  obtains p1 where "(if \<not> contains p (clean_name pc s) then add_section p (clean_name pc s) else Inr p) = Inr p1"
    and "clean_name pc s \<in> set (sections p1) \<or> clean_name pc s = default_section"
    and "set (sections p1) \<subseteq> insert (clean_name pc s) seen"
    and "dicts p1 \<subseteq> insert [] (dicts p)"
proof (cases "contains p (clean_name pc s)")
  case True
  with assms have "clean_name pc s = default_section"
    by (auto simp: contains_def has_section_def)
  with True assms(1) that [of p] show ?thesis by auto
next
  case False
  then have "clean_name pc s \<noteq> default_section" "clean_name pc s \<notin> set (sections p)"
    by (auto simp: contains_def has_section_def)
  then have a: "add_section p (clean_name pc s)
      = Inr (p\<lparr>p_sections := p_sections p @ [(clean_name pc s, [])]\<rparr>)"
    by (simp add: add_section_def)
  show ?thesis
    by (rule that [of "p\<lparr>p_sections := p_sections p @ [(clean_name pc s, [])]\<rparr>"])
       (use False a assms(1) in \<open>auto simp: sections_def dicts_def\<close>)
qed

lemma clean_sections_error:
  "clean_sections pc raw seen p secs = Inl err \<Longrightarrow> set secs \<subseteq> set (sections raw) \<Longrightarrow>
   \<forall>d \<in> dicts raw. distinct (map fst d) \<and> (\<forall>kv \<in> set d. strip (fst kv) = fst kv) \<Longrightarrow>
   set (sections p) \<subseteq> seen \<Longrightarrow>
   (\<exists>s \<in> set secs. err = DuplicateProfile (clean_name pc s)) \<or> (\<exists>x. err = InvalidInterpolation x)"
proof (induction secs arbitrary: seen p)
  case Nil
  then show ?case by simp
next
  case (Cons s secs)
  let ?c = "clean_name pc s"
  show ?case
  proof (cases "?c \<in> seen")
    case True
    with Cons.prems(1) show ?thesis by (simp add: Let_def)
  next
    case False
    from Cons.prems(4) False obtain p1 where
      a: "(if \<not> contains p ?c then add_section p ?c else Inr p) = Inr p1"
      and c: "?c \<in> set (sections p1) \<or> ?c = default_section"
      and s1: "set (sections p1) \<subseteq> insert ?c seen"
      by (rule clean_sections_step)
    from Cons.prems(2) have "s \<in> set (sections raw)" by simp
    then obtain S where S: "S \<in> dicts raw"
      and i: "items_raw raw s = Inr (dict_update (p_defaults raw) S)"
      by (rule items_raw_section)
    let ?its = "dict_update (p_defaults raw) S"
    have D: "p_defaults raw \<in> dicts raw" by (simp add: dicts_def)
    from Cons.prems(3) S D have fixed: "\<forall>kv \<in> set ?its. strip (fst kv) = fst kv"
      using set_dict_update [of "p_defaults raw" S] by blast
    then have "map (\<lambda>kv. strip (fst kv)) ?its = map fst ?its" by simp
    moreover from Cons.prems(3) D have "distinct (map fst ?its)"
      by (simp add: distinct_dict_update)
    ultimately have di: "distinct (map (\<lambda>kv. strip (fst kv)) ?its)" by (simp only:)
    show ?thesis
    proof (cases "clean_items pc ?c {} p1 ?its")
      case (Inl err')
      with Cons.prems(1) False a i have "err = err'" by (simp add: Let_def)
      with Inl clean_items_error [OF _ _ di, of pc ?c "{}" p1] c show ?thesis by auto
    next
      case (Inr p2)
      with Cons.prems(1) False a i
      have 1: "clean_sections pc raw (insert ?c seen) p2 secs = Inl err" by (simp add: Let_def)
      from clean_items_sections [OF Inr] s1 have 2: "set (sections p2) \<subseteq> insert ?c seen" by simp
      from Cons.prems(2) have 3: "set secs \<subseteq> set (sections raw)" by simp
      from Cons.IH [OF 1 3 Cons.prems(3) 2] show ?thesis by auto
    qed
  qed
qed



lemma raw_keys_fixed:
  assumes "read_string pc (preprocess_file text) = Inr raw"
  shows "\<forall>d \<in> dicts raw. distinct (map fst d) \<and> (\<forall>kv \<in> set d. strip (fst kv) = fst kv)"
proof
  fix d assume d: "d \<in> dicts raw"
  have cl: "\<forall>p \<in> set (processed_lines text). clean_line p" using processed_lines_clean by blast
  from read_string_raw(1) [OF assms] d have di: "distinct (map fst d)"
    and au: "set d \<subseteq> authored pc (processed_lines text)" by blast+
  have "strip (fst kv) = fst kv" if "kv \<in> set d" for kv
  proof -
    from that au have "(fst kv, snd kv) \<in> authored pc (processed_lines text)" by auto
    from authored_clean [OF cl this] show ?thesis by simp
  qed
  with di show "distinct (map fst d) \<and> (\<forall>kv \<in> set d. strip (fst kv) = fst kv)" by blast
qed






section \<open>Duplicate profiles\<close>




section \<open>The options of a handler\<close>

lemma set_option_dicts:
  assumes "set_option pc p s k v = Inr p'" and "d \<in> dicts p'"
  shows "d \<in> dicts p \<or> (\<exists>d0 \<in> dicts p. d = AList.update (optionxform pc k) v d0)"
proof -
  from assms(1) have ok: "(if v \<noteq> [] then before_set v else Inr v) = Inr v"
    by (auto simp: set_option_def dest: before_set_Inr split: sum.splits if_splits)
  show ?thesis
  proof (cases "s = [] \<or> s = default_section")
    case True
    with assms(1) ok have "p' = p\<lparr>p_defaults := AList.update (optionxform pc k) v (p_defaults p)\<rparr>"
      by (simp add: set_option_def)
    with assms(2) show ?thesis by (auto simp: dicts_def)
  next
    case False
    with assms(1) ok have
      "p' = p\<lparr>p_sections := AList.map_entry s (AList.update (optionxform pc k) v) (p_sections p)\<rparr>"
      by (simp add: set_option_def split: if_splits)
    with assms(2) have "d = p_defaults p
        \<or> (\<exists>n. (n, d) \<in> set (AList.map_entry s (AList.update (optionxform pc k) v) (p_sections p)))"
      by (auto simp: dicts_def)
    then show ?thesis
      using set_map_entry [of _ d s "AList.update (optionxform pc k) v" "p_sections p"]
      by (force simp: dicts_def)
  qed
qed

lemma clean_items_authored:
  assumes closed: "\<forall>kv \<in> A. optionxform pc (strip (fst kv)) = fst kv \<and> strip (snd kv) = snd kv"
  shows "clean_items pc c seen p its = Inr p' \<Longrightarrow> set its \<subseteq> A \<Longrightarrow>
         \<forall>d \<in> dicts p. set d \<subseteq> A \<Longrightarrow> \<forall>d \<in> dicts p'. set d \<subseteq> A"
proof (induction its arbitrary: seen p)
  case Nil
  then show ?case by simp
next
  case (Cons kv its)
  obtain k v where kv: "kv = (k, v)" by (cases kv)
  from Cons.prems(1) kv obtain p1 where
    1: "set_option pc p c (strip k) (strip v) = Inr p1"
    and 2: "clean_items pc c (insert (strip k) seen) p1 its = Inr p'"
    by (auto simp: Let_def split: if_splits sum.splits)
  from Cons.prems(2) kv closed have kvA: "(optionxform pc (strip k), strip v) \<in> A" by force
  have "set d \<subseteq> A" if "d \<in> dicts p1" for d
  proof -
    from set_option_dicts [OF 1 that] show ?thesis
    proof
      assume "d \<in> dicts p"
      with Cons.prems(3) show ?thesis by blast
    next
      assume "\<exists>d0 \<in> dicts p. d = AList.update (optionxform pc (strip k)) (strip v) d0"
      then obtain d0 where "d0 \<in> dicts p" "d = AList.update (optionxform pc (strip k)) (strip v) d0"
        by blast
      with Cons.prems(3) kvA show ?thesis using set_update_subset by fastforce
    qed
  qed
  with Cons.IH [OF 2] Cons.prems(2) show ?case by simp
qed

lemma add_section_dicts: "add_section p s = Inr p' \<Longrightarrow> dicts p' \<subseteq> insert [] (dicts p)"
  by (auto simp: add_section_def dicts_def split: if_splits)

lemma subset_insert_Nil:
  assumes "Y \<subseteq> insert [] X" and "\<forall>d \<in> X. set d \<subseteq> A"
  shows "\<forall>d \<in> Y. set d \<subseteq> A"
proof
  fix d assume "d \<in> Y"
  with assms(1) have "d = [] \<or> d \<in> X" by blast
  with assms(2) show "set d \<subseteq> A" by auto
qed

lemma clean_sections_authored:
  assumes closed: "\<forall>kv \<in> A. optionxform pc (strip (fst kv)) = fst kv \<and> strip (snd kv) = snd kv"
    and raw: "\<forall>d \<in> dicts raw. set d \<subseteq> A"
  shows "clean_sections pc raw seen p secs = Inr p' \<Longrightarrow> \<forall>d \<in> dicts p. set d \<subseteq> A \<Longrightarrow>
         \<forall>d \<in> dicts p'. set d \<subseteq> A"
proof (induction secs arbitrary: seen p)
  case Nil
  then show ?case by simp
next
  case (Cons s secs)
  let ?c = "clean_name pc s"
  from Cons.prems(1) obtain p1 its p2 where
    1: "(if \<not> contains p ?c then add_section p ?c else Inr p) = Inr p1"
    and i: "items_raw raw s = Inr its"
    and 2: "clean_items pc ?c {} p1 its = Inr p2"
    and 3: "clean_sections pc raw (insert ?c seen) p2 secs = Inr p'"
    by (auto simp: Let_def split: if_splits sum.splits)
  from 1 have "dicts p1 \<subseteq> insert [] (dicts p)"
    by (auto dest: add_section_dicts split: if_splits)
  from subset_insert_Nil [OF this Cons.prems(2)] have p1: "\<forall>d \<in> dicts p1. set d \<subseteq> A" .
  have "set its \<subseteq> A"
  proof (cases "map_of (p_sections raw) s")
    case None
    with i have "its = p_defaults raw" by (auto simp: items_raw_def split: if_splits)
    with raw show ?thesis by (simp add: dicts_def)
  next
    case (Some S)
    then have "(s, S) \<in> set (p_sections raw)" by (rule map_of_SomeD)
    then have "S \<in> dicts raw" by (force simp: dicts_def)
    moreover have "p_defaults raw \<in> dicts raw" by (simp add: dicts_def)
    moreover from Some i have "its = dict_update (p_defaults raw) S" by (simp add: items_raw_def)
    ultimately show ?thesis using raw set_dict_update [of "p_defaults raw" S] by blast
  qed
  from clean_items_authored [OF closed 2 this p1] Cons.IH [OF 3] show ?case by blast
qed

lemma load_config_authored:
  assumes "load_config (Some text) pc = Inr h"
  shows "\<forall>d \<in> dicts (config h). set d \<subseteq> authored pc (processed_lines text)"
proof -
  let ?A = "authored pc (processed_lines text)"
  from assms obtain raw cleaned where r: "read_string pc (preprocess_file text) = Inr raw"
    and c: "clean_sections pc raw {} new_parser (sections raw) = Inr cleaned"
    and h: "h = \<lparr>preserve_case = pc, config = cleaned\<rparr>"
    by (rule load_config_Inr)
  have cl: "\<forall>p \<in> set (processed_lines text). clean_line p" using processed_lines_clean by blast
  have closed: "\<forall>kv \<in> ?A. optionxform pc (strip (fst kv)) = fst kv \<and> strip (snd kv) = snd kv"
  proof
    fix kv assume "kv \<in> ?A"
    then have "(fst kv, snd kv) \<in> ?A" by simp
    from authored_clean [OF cl this]
    show "optionxform pc (strip (fst kv)) = fst kv \<and> strip (snd kv) = snd kv" by simp
  qed
  from read_string_raw(1) [OF r] have raw: "\<forall>d \<in> dicts raw. set d \<subseteq> ?A" by blast
  have "\<forall>d \<in> dicts (new_parser :: string parser). set d \<subseteq> ?A"
    by (simp add: dicts_def new_parser_def)
  from clean_sections_authored [OF closed raw c this] show ?thesis by (simp add: h)
qed

lemma interpolate_items_mem:
  "interpolate_items pc s d its = Inr kvs \<Longrightarrow> (k, v) \<in> set kvs \<Longrightarrow>
   \<exists>v0. (k, v0) \<in> set its \<and> before_get pc s k v0 d = Inr v"
proof (induction its arbitrary: kvs)
  case Nil
  then show ?case by simp
next
  case (Cons ov its)
  obtain o' v0 where ov: "ov = (o', v0)" by (cases ov)
  from Cons.prems(1) ov obtain v' rest' where
    1: "before_get pc s o' v0 d = Inr v'" and 2: "interpolate_items pc s d its = Inr rest'"
    and 3: "kvs = (o', v') # rest'"
    by (auto split: sum.splits)
  from Cons.prems(2) 3 have "(k, v) = (o', v') \<or> (k, v) \<in> set rest'" by simp
  then show ?case
  proof
    assume "(k, v) = (o', v')"
    with 1 ov show ?thesis by auto
  next
    assume "(k, v) \<in> set rest'"
    from Cons.IH [OF 2 this] show ?thesis by auto
  qed
qed

lemma before_get_plain: "CHR ''%'' \<notin> set v \<Longrightarrow> before_get pc s k v d = Inr v"
  by (simp add: before_get_def interpolate_some_plain MAX_INTERPOLATION_DEPTH_def)

lemma section_items_mem:
  "section_items pc p secs = Inr cfg \<Longrightarrow> (name, kvs) \<in> set cfg \<Longrightarrow> items pc p name = Inr kvs"
proof (induction secs arbitrary: cfg)
  case Nil
  then show ?case by simp
next
  case (Cons s secs)
  from Cons.prems(1) obtain its rest' where 1: "items pc p s = Inr its"
    and 2: "section_items pc p secs = Inr rest'" and 3: "cfg = (s, its) # rest'"
    by (auto split: sum.splits)
  from Cons.prems(2) 3 have "(name, kvs) = (s, its) \<or> (name, kvs) \<in> set rest'" by simp
  then show ?case using 1 Cons.IH [OF 2] by auto
qed

lemma items_raw_dicts:
  assumes "items_raw p s = Inr d"
  shows "set d \<subseteq> \<Union> (set ` dicts p)"
proof (cases "map_of (p_sections p) s")
  case None
  with assms have "d = p_defaults p" by (auto simp: items_raw_def split: if_splits)
  then show ?thesis by (auto simp: dicts_def)
next
  case (Some S)
  then have "(s, S) \<in> set (p_sections p)" by (rule map_of_SomeD)
  then have "S \<in> dicts p" by (force simp: dicts_def)
  moreover have "p_defaults p \<in> dicts p" by (simp add: dicts_def)
  moreover from Some assms have "d = dict_update (p_defaults p) S" by (simp add: items_raw_def)
  ultimately show ?thesis using set_dict_update [of "p_defaults p" S] by blast
qed


text \<open>
  Claim C8. Every key and value that \<open>get_config\<close> returns are those of an entry of
  the file: the key is the entry's key, lowercased under the default case mode and as
  written with \<open>preserve_case\<close>, and the value is the entry's value as written (a
  value that holds \<open>%\<close> is shown interpolated). With the file of the tests the key
  \<open>keyA\<close> with the value \<open>valueA\<close> is returned as \<open>keya\<close> with \<open>valueA\<close>
  under the default case mode and as \<open>keyA\<close> with \<open>valueA\<close> with \<open>preserve_case\<close>.
\<close>

theorem get_config_case:
  assumes "load_config (Some text) pc = Inr h" and "get_config h = Inr cfg"
    and "(name, kvs) \<in> set cfg" and "(k, v) \<in> set kvs"
  shows "(\<exists>p \<in> set (processed_lines text). \<exists>k0 v0. entry p = Some (k0, v0)
            \<and> k = (if pc then k0 else lower k0) \<and> (v = v0 \<or> CHR ''%'' \<in> set v0))
       \<and> (pc \<or> lower k = k)
       \<and> (\<exists>h. load_config (Some config_content) False = Inr h
              \<and> get_config h =
                  Inr [(''profile1'', [(''key1'', ''value1''), (''key2'', ''value2'')]),
                       (''profile2'', [(''keya'', ''valueA''), (''keyb'', ''valueB'')]),
                       (''profile3'', [(''keyx'', ''valueX''), (''keyy'', ''valueY'')])])
       \<and> (\<exists>h. load_config (Some config_content) True = Inr h
              \<and> get_config h =
                  Inr [(''profile1'', [(''key1'', ''value1''), (''key2'', ''value2'')]),
                       (''profile2'', [(''keyA'', ''valueA''), (''keyB'', ''valueB'')]),
                       (''profile3'', [(''keyX'', ''valueX''), (''keyY'', ''valueY'')])])"
proof (intro conjI)
  from load_config_handler [OF assms(1)] have pc: "preserve_case h = pc" by simp
  from assms(2,3) have "items pc (config h) name = Inr kvs"
    by (auto simp: get_config_def pc dest: section_items_mem)
  then obtain d where d: "items_raw (config h) name = Inr d"
    and i: "interpolate_items pc name d d = Inr kvs"
    by (auto simp: items_def split: sum.splits)
  from interpolate_items_mem [OF i assms(4)] obtain v0 where v0: "(k, v0) \<in> set d"
    and b: "before_get pc name k v0 d = Inr v" by blast
  from v0 items_raw_dicts [OF d] load_config_authored [OF assms(1)]
  have "(k, v0) \<in> authored pc (processed_lines text)" by blast
  then obtain p k0 where p: "p \<in> set (processed_lines text)" and e: "entry p = Some (k0, v0)"
    and k: "k = optionxform pc k0"
    by (auto simp: authored_def)
  from b have "v = v0 \<or> CHR ''%'' \<in> set v0"
    using before_get_plain [of v0 pc name k d] by auto
  with p e k show "\<exists>p \<in> set (processed_lines text). \<exists>k0 v0. entry p = Some (k0, v0)
            \<and> k = (if pc then k0 else lower k0) \<and> (v = v0 \<or> CHR ''%'' \<in> set v0)"
    by (auto simp: optionxform_def)
  from k show "pc \<or> lower k = k" by (auto simp: optionxform_def)
  show "\<exists>h. load_config (Some config_content) False = Inr h
              \<and> get_config h =
                  Inr [(''profile1'', [(''key1'', ''value1''), (''key2'', ''value2'')]),
                       (''profile2'', [(''keya'', ''valueA''), (''keyb'', ''valueB'')]),
                       (''profile3'', [(''keyx'', ''valueX''), (''keyy'', ''valueY'')])]"
  proof -
    have "get_config \<lparr>preserve_case = False,
          config = \<lparr>p_sections =
                      [(''profile1'', [(''key1'', ''value1''), (''key2'', ''value2'')]),
                       (''profile2'', [(''keya'', ''valueA''), (''keyb'', ''valueB'')]),
                       (''profile3'', [(''keyx'', ''valueX''), (''keyy'', ''valueY'')])],
                    p_defaults = []\<rparr>\<rparr>
      = Inr [(''profile1'', [(''key1'', ''value1''), (''key2'', ''value2'')]),
                       (''profile2'', [(''keya'', ''valueA''), (''keyb'', ''valueB'')]),
                       (''profile3'', [(''keyx'', ''valueX''), (''keyy'', ''valueY'')])]"
      by code_simp
    with load_config_content show ?thesis by simp
  qed
  show "\<exists>h. load_config (Some config_content) True = Inr h
              \<and> get_config h =
                  Inr [(''profile1'', [(''key1'', ''value1''), (''key2'', ''value2'')]),
                       (''profile2'', [(''keyA'', ''valueA''), (''keyB'', ''valueB'')]),
                       (''profile3'', [(''keyX'', ''valueX''), (''keyY'', ''valueY'')])]"
  proof -
    have "load_config (Some config_content) True =
     Inr \<lparr>preserve_case = True,
          config = \<lparr>p_sections =
                      [(''profile1'', [(''key1'', ''value1''), (''key2'', ''value2'')]),
                       (''profile2'', [(''keyA'', ''valueA''), (''keyB'', ''valueB'')]),
                       (''profile3'', [(''keyX'', ''valueX''), (''keyY'', ''valueY'')])],
                    p_defaults = []\<rparr>\<rparr>"
      by code_simp
    moreover have "get_config \<lparr>preserve_case = True,
          config = \<lparr>p_sections =
                      [(''profile1'', [(''key1'', ''value1''), (''key2'', ''value2'')]),
                       (''profile2'', [(''keyA'', ''valueA''), (''keyB'', ''valueB'')]),
                       (''profile3'', [(''keyX'', ''valueX''), (''keyY'', ''valueY'')])],
                    p_defaults = []\<rparr>\<rparr>
      = Inr [(''profile1'', [(''key1'', ''value1''), (''key2'', ''value2'')]),
                       (''profile2'', [(''keyA'', ''valueA''), (''keyB'', ''valueB'')]),
                       (''profile3'', [(''keyX'', ''valueX''), (''keyY'', ''valueY'')])]"
      by code_simp
    ultimately show ?thesis by simp
  qed
qed

theorem get_config_case_witness:
  "\<exists>p \<in> set (processed_lines config_content). \<exists>k0 v0. entry p = Some (k0, v0)
      \<and> ''keya'' = lower k0 \<and> (''valueA'' = v0 \<or> CHR ''%'' \<in> set v0)"
proof -
  let ?h = "\<lparr>preserve_case = False,
          config = \<lparr>p_sections =
                      [(''profile1'', [(''key1'', ''value1''), (''key2'', ''value2'')]),
                       (''profile2'', [(''keya'', ''valueA''), (''keyb'', ''valueB'')]),
                       (''profile3'', [(''keyx'', ''valueX''), (''keyy'', ''valueY'')])],
                    p_defaults = []\<rparr>\<rparr>"
  have g: "get_config ?h
      = Inr [(''profile1'', [(''key1'', ''value1''), (''key2'', ''value2'')]),
                       (''profile2'', [(''keya'', ''valueA''), (''keyb'', ''valueB'')]),
                       (''profile3'', [(''keyx'', ''valueX''), (''keyy'', ''valueY'')])]"
    by code_simp
  have m: "(''profile2'', [(''keya'', ''valueA''), (''keyb'', ''valueB'')])
      \<in> set [(''profile1'', [(''key1'', ''value1''), (''key2'', ''value2'')]),
                       (''profile2'', [(''keya'', ''valueA''), (''keyb'', ''valueB'')]),
                       (''profile3'', [(''keyx'', ''valueX''), (''keyy'', ''valueY'')])]"
    by simp
  have n: "(''keya'', ''valueA'') \<in> set [(''keya'', ''valueA''), (''keyb'', ''valueB'')]"
    by simp
  from get_config_case [OF load_config_content g m n] show ?thesis by simp
qed

section \<open>The text that display_config returns\<close>

lemma split_nl_not_Nil [simp]: "split_nl s \<noteq> []"
  by (induction s) auto

lemma splitlines_split_nl:
  "CHR 0x0A \<notin> set acc \<Longrightarrow>
   map (takeWhile (\<lambda>c. c \<noteq> CHR 0x0A)) (splitlines acc s) =
     (if last ((acc @ hd (split_nl s)) # tl (split_nl s)) = []
      then butlast ((acc @ hd (split_nl s)) # tl (split_nl s))
      else (acc @ hd (split_nl s)) # tl (split_nl s))"
proof (induction s arbitrary: acc)
  case Nil
  then show ?case by auto
next
  case (Cons c cs)
  show ?case
  proof (cases "c = CHR 0x0A")
    case True
    have "map (takeWhile (\<lambda>c. c \<noteq> CHR 0x0A)) (splitlines [] cs) =
            (if last (split_nl cs) = [] then butlast (split_nl cs) else split_nl cs)"
      using Cons.IH [of "[]"] by simp
    moreover have "takeWhile (\<lambda>c. c \<noteq> CHR 0x0A) (acc @ [CHR 0x0A]) = acc"
      using Cons.prems by (induction acc) auto
    ultimately show ?thesis using True by simp
  next
    case False
    with Cons.prems have "CHR 0x0A \<notin> set (acc @ [c])" by simp
    from Cons.IH [OF this] False show ?thesis by simp
  qed
qed

lemma filter_map_split_nl:
  assumes "f [] = []"
  shows "filter (\<lambda>l. l \<noteq> []) (map f (map (takeWhile (\<lambda>c. c \<noteq> CHR 0x0A)) (splitlines [] s)))
           = filter (\<lambda>l. l \<noteq> []) (map f (split_nl s))"
proof -
  let ?X = "split_nl s"
  have m: "map (takeWhile (\<lambda>c. c \<noteq> CHR 0x0A)) (splitlines [] s) =
           (if last ?X = [] then butlast ?X else ?X)"
    using splitlines_split_nl [of "[]" s] by simp
  show ?thesis
  proof (cases "last ?X = []")
    case True
    have "?X = butlast ?X @ [last ?X]" by simp
    then have "map f ?X = map f (butlast ?X) @ [f []]"
      using True by (metis list.simps(8,9) map_append)
    with m True assms show ?thesis by simp
  next
    case False
    with m show ?thesis by simp
  qed
qed

lemma processed_lines_split_nl:
  "processed_lines text =
     filter (\<lambda>l. l \<noteq> []) (map (\<lambda>l. strip (strip_comment l)) (split_nl (universal_newlines text)))"
proof -
  have "strip (strip_comment []) = []"
    by (simp add: strip_comment_def strip_def lstrip_def rstrip_def)
  from filter_map_split_nl [of "\<lambda>l. strip (strip_comment l)", OF this]
  show ?thesis
    by (simp add: processed_lines_spec file_lines_def readlines_def)
qed

lemma strip_Cons_space: "isspace c \<Longrightarrow> strip (c # s) = strip s"
  by (simp add: strip_def lstrip_def)

lemma strip_comment_Cons_space: "isspace c \<Longrightarrow> strip_comment (c # s) = c # strip_comment s"
  using not_space_comment [of c] by (auto simp: strip_comment_def)

lemma strip_comment_snoc_space:
  "isspace c \<Longrightarrow> strip (strip_comment (s @ [c])) = strip (strip_comment s)"
proof -
  assume c: "isspace c"
  then have nc: "\<not> is_comment_char c" using not_space_comment by blast
  show ?thesis
  proof (cases "\<forall>x \<in> set s. \<not> is_comment_char x")
    case True
    then have "strip_comment (s @ [c]) = s @ [c]" "strip_comment s = s"
      using nc by (simp_all add: strip_comment_def)
    then show ?thesis using strip_append_space [of "[c]" s] c by simp
  next
    case False
    then have "strip_comment (s @ [c]) = strip_comment s"
      by (auto simp: strip_comment_def takeWhile_append1)
    then show ?thesis by simp
  qed
qed

lemma clean_segments_lstrip:
  "filter (\<lambda>l. l \<noteq> []) (map (\<lambda>l. strip (strip_comment l)) (split_nl (lstrip s)))
     = filter (\<lambda>l. l \<noteq> []) (map (\<lambda>l. strip (strip_comment l)) (split_nl s))"
proof (induction s)
  case Nil
  then show ?case by (simp add: lstrip_def)
next
  case (Cons c cs)
  show ?case
  proof (cases "isspace c")
    case False
    then show ?thesis by (simp add: lstrip_def)
  next
    case True
    then have l: "lstrip (c # cs) = lstrip cs" by (simp add: lstrip_def)
    have e: "strip (strip_comment []) = []"
      by (simp add: strip_comment_def strip_def lstrip_def rstrip_def)
    show ?thesis
    proof (cases "c = CHR 0x0A")
      case True
      with Cons.IH l e show ?thesis by simp
    next
      case False
      have "split_nl cs = hd (split_nl cs) # tl (split_nl cs)" by simp
      then have "map (\<lambda>l. strip (strip_comment l)) (split_nl cs)
                 = strip (strip_comment (hd (split_nl cs))) # map (\<lambda>l. strip (strip_comment l)) (tl (split_nl cs))"
        by (metis list.simps(9))
      moreover have "strip (strip_comment (c # hd (split_nl cs))) = strip (strip_comment (hd (split_nl cs)))"
        using True by (simp add: strip_comment_Cons_space strip_Cons_space)
      ultimately show ?thesis using Cons.IH l False by simp
    qed
  qed
qed

lemma split_nl_snoc:
  "split_nl (xs @ [c]) =
     (if c = CHR 0x0A then split_nl xs @ [[]]
      else butlast (split_nl xs) @ [last (split_nl xs) @ [c]])"
proof (induction xs)
  case Nil
  then show ?case by simp
next
  case (Cons x xs)
  have ne: "split_nl xs \<noteq> []" by simp
  have hd1: "hd (butlast (split_nl xs) @ [y]) = (if tl (split_nl xs) = [] then y else hd (split_nl xs))" for y
    using ne by (cases "split_nl xs") (auto)
  have tl1: "tl (butlast (split_nl xs) @ [y]) = (if tl (split_nl xs) = [] then [] else butlast (tl (split_nl xs)) @ [y])" for y
    using ne by (cases "split_nl xs") (auto)
  have l1: "last (split_nl xs) = (if tl (split_nl xs) = [] then hd (split_nl xs) else last (tl (split_nl xs)))"
    using ne by (cases "split_nl xs") (auto)
  show ?case
  proof (cases "c = CHR 0x0A")
    case True
    with Cons show ?thesis using ne by (cases "split_nl xs") auto
  next
    case False
    with Cons show ?thesis using ne by (cases "split_nl xs") (auto simp: hd1 tl1 l1)
  qed
qed

lemma clean_segments_snoc:
  assumes "isspace c"
  shows "filter (\<lambda>l. l \<noteq> []) (map (\<lambda>l. strip (strip_comment l)) (split_nl (s @ [c])))
       = filter (\<lambda>l. l \<noteq> []) (map (\<lambda>l. strip (strip_comment l)) (split_nl s))"
proof -
  have e: "strip (strip_comment []) = []"
    by (simp add: strip_comment_def strip_def lstrip_def rstrip_def)
  have X: "split_nl s = butlast (split_nl s) @ [last (split_nl s)]" by simp
  show ?thesis
  proof (cases "c = CHR 0x0A")
    case True
    then show ?thesis using e by (simp add: split_nl_snoc)
  next
    case False
    have "map (\<lambda>l. strip (strip_comment l)) (split_nl s)
          = map (\<lambda>l. strip (strip_comment l)) (butlast (split_nl s)) @ [strip (strip_comment (last (split_nl s)))]"
      by (subst X) (simp only: map_append list.simps(8,9))
    then show ?thesis using False strip_comment_snoc_space [OF assms]
      by (simp add: split_nl_snoc)
  qed
qed

lemma clean_segments_rstrip:
  "filter (\<lambda>l. l \<noteq> []) (map (\<lambda>l. strip (strip_comment l)) (split_nl (rstrip s)))
     = filter (\<lambda>l. l \<noteq> []) (map (\<lambda>l. strip (strip_comment l)) (split_nl s))"
proof (induction s rule: rev_induct)
  case Nil
  then show ?case by (simp add: rstrip_def)
next
  case (snoc c s)
  show ?case
  proof (cases "isspace c")
    case True
    then have "rstrip (s @ [c]) = rstrip s" by (simp add: rstrip_def)
    with snoc clean_segments_snoc [OF True] show ?thesis by simp
  next
    case False
    then have "rstrip (s @ [c]) = s @ [c]" by (simp add: rstrip_def)
    then show ?thesis by simp
  qed
qed

lemma clean_segments_strip:
  "filter (\<lambda>l. l \<noteq> []) (map (\<lambda>l. strip (strip_comment l)) (split_nl (strip s)))
     = filter (\<lambda>l. l \<noteq> []) (map (\<lambda>l. strip (strip_comment l)) (split_nl s))"
proof -
  have "strip s = rstrip (lstrip s)" by (simp add: strip_def)
  then show ?thesis by (simp only: clean_segments_rstrip clean_segments_lstrip)
qed

lemma universal_newlines_id: "CHR 0x0D \<notin> set s \<Longrightarrow> universal_newlines s = s"
  by (induction s rule: universal_newlines.induct) auto

lemma universal_newlines_no_cr: "CHR 0x0D \<notin> set (universal_newlines s)"
  by (induction s rule: universal_newlines.induct) auto

lemma split_nl_line: "CHR 0x0A \<notin> set x \<Longrightarrow> split_nl (x @ CHR 0x0A # rest) = x # split_nl rest"
  by (induction x) auto

lemma split_nl_single: "CHR 0x0A \<notin> set x \<Longrightarrow> split_nl x = [x]"
  by (induction x) auto

lemma split_nl_join:
  "ls \<noteq> [] \<Longrightarrow> \<forall>l \<in> set ls. CHR 0x0A \<notin> set l \<Longrightarrow> split_nl (join [CHR 0x0A] ls) = ls"
proof (induction "[CHR 0x0A]" ls rule: join.induct)
  case 1
  then show ?case by simp
next
  case (2 x)
  then show ?case by (simp add: split_nl_single)
next
  case (3 x y ys)
  then show ?case by (simp add: split_nl_line)
qed

lemma set_join: "set (join sep ls) \<subseteq> set sep \<union> \<Union> (set ` set ls)"
  by (induction sep ls rule: join.induct) auto

lemma processed_lines_display:
  assumes "\<forall>l \<in> set ls. CHR 0x0A \<notin> set l \<and> CHR 0x0D \<notin> set l"
  shows "processed_lines (strip (join [CHR 0x0A] ls))
           = filter (\<lambda>l. l \<noteq> []) (map (\<lambda>l. strip (strip_comment l)) ls)"
proof -
  let ?T = "join [CHR 0x0A] ls"
  have "CHR 0x0D \<notin> set ?T" using set_join [of "[CHR 0x0A]" ls] assms by auto
  then have "CHR 0x0D \<notin> set (strip ?T)" using set_strip [of ?T] by blast
  then have "universal_newlines (strip ?T) = strip ?T" by (rule universal_newlines_id)
  then have "processed_lines (strip ?T)
      = filter (\<lambda>l. l \<noteq> []) (map (\<lambda>l. strip (strip_comment l)) (split_nl ?T))"
    by (simp add: processed_lines_split_nl clean_segments_strip)
  also have "\<dots> = filter (\<lambda>l. l \<noteq> []) (map (\<lambda>l. strip (strip_comment l)) ls)"
  proof (cases "ls = []")
    case True
    then show ?thesis by (simp add: strip_comment_def strip_def lstrip_def rstrip_def)
  next
    case False
    with assms have "split_nl ?T = ls" by (simp add: split_nl_join)
    then show ?thesis by simp
  qed
  finally show ?thesis .
qed

section \<open>Reading a displayed configuration\<close>

lemma strip_fixedD: "strip s = s \<Longrightarrow> s \<noteq> [] \<Longrightarrow> \<not> isspace (hd s) \<and> \<not> isspace (last s)"
  using strip_hd_last [of s] by simp

lemma not_space_eq [simp]: "\<not> isspace (CHR ''='')"
  by (simp add: isspace_def)

lemma space_space [simp]: "isspace (CHR '' '')"
  by (simp add: isspace_def)

lemma entry_line_eq:
  assumes "k \<noteq> []" and "strip k = k" and "strip v = v"
  shows "entry_line k v = (if v = [] then k @ '' ='' else k @ '' = '' @ v)"
proof -
  from assms have hk: "\<not> isspace (hd k)" using strip_fixedD by blast
  show ?thesis
  proof (cases "v = []")
    case True
    have "strip (k @ '' ='' @ '' '') = strip (k @ '' ='')"
      using strip_append_space [of "'' ''" "k @ '' =''"] by simp
    also have "\<dots> = k @ '' =''"
      using hk assms(1) by (intro strip_fixed) auto
    finally show ?thesis using True by (simp add: entry_line_def)
  next
    case False
    with assms have "\<not> isspace (last v)" using strip_fixedD by blast
    then have "strip (k @ '' = '' @ v) = k @ '' = '' @ v"
      using hk assms(1) False by (intro strip_fixed) auto
    with False show ?thesis by (simp add: entry_line_def)
  qed
qed

lemma rstrip_strip_fixed: "strip s = s \<Longrightarrow> rstrip s = s"
  by (metis rstrip_rstrip strip_def)

lemma lstrip_strip_fixed: "strip s = s \<Longrightarrow> lstrip s = s"
proof (cases "s = []")
  case True
  then show ?thesis by (simp add: lstrip_def)
next
  case False
  assume "strip s = s"
  with False show ?thesis using strip_fixedD lstrip_fixed by blast
qed

lemma OPTCRE_match_entry_line:
  assumes "good_entry pc k v"
  shows "OPTCRE_match (entry_line k v) = Some (k, CHR ''='', v)"
proof -
  from assms have k: "k \<noteq> []" "strip k = k" "\<forall>c \<in> set k. \<not> is_delim c" and v: "strip v = v"
    by (simp_all add: good_entry_def)
  have nd: "\<not> is_delim (CHR '' '')" by (simp add: is_delim_def)
  have d: "is_delim (CHR ''='')" by (simp add: is_delim_def)
  have tw: "takeWhile (\<lambda>c. \<not> is_delim c) ((k @ '' '') @ CHR ''='' # w) = k @ '' ''" for w
    using k(3) nd d by (intro takeWhile_append2 [THEN trans]) auto
  have dw: "dropWhile (\<lambda>c. \<not> is_delim c) ((k @ '' '') @ CHR ''='' # w) = CHR ''='' # w" for w
    using k(3) nd d by (intro dropWhile_append2 [THEN trans]) auto
  have rk: "rstrip (k @ '' '') = k"
    using rstrip_append_space [of "'' ''" k] rstrip_strip_fixed [OF k(2)] by simp
  have lv: "lstrip ('' '' @ v) = v"
    using lstrip_strip_fixed [OF v] by (simp add: lstrip_def)
  show ?thesis
  proof (cases "v = []")
    case True
    then have "entry_line k v = (k @ '' '') @ CHR ''='' # []"
      using entry_line_eq [OF k(1,2) v] by simp
    then show ?thesis
      using True rk by (simp only: OPTCRE_match_def tw dw) (simp add: lstrip_def)
  next
    case False
    then have "entry_line k v = (k @ '' '') @ CHR ''='' # ('' '' @ v)"
      using entry_line_eq [OF k(1,2) v] by simp
    then show ?thesis
      using rk lv by (simp only: OPTCRE_match_def tw dw) simp
  qed
qed

lemma SECTCRE_match_header:
  assumes "c \<noteq> []" and "CHR 0x0A \<notin> set c"
  shows "SECTCRE_match (''['' @ c @ '']'') = Some c"
proof -
  have tw: "takeWhile (\<lambda>y. y \<noteq> CHR 0x0A) (c @ '']'') = c @ '']''"
    using assms(2) by (induction c) auto
  show ?thesis
    using assms(1) by (simp add: SECTCRE_match_def tw)
qed

lemma map_entry_last:
  "c \<notin> fst ` set secs \<Longrightarrow> AList.map_entry c f (secs @ [(c, d)]) = secs @ [(c, f d)]"
  by (induction secs) auto

lemma update_fresh: "k \<notin> fst ` set d \<Longrightarrow> AList.update k v d = d @ [(k, v)]"
  by (induction d) auto

lemma read_entry:
  assumes g: "good_entry pc k v" and l: "strip l = entry_line k v"
    and cur: "cursect st = Some (c, SectionRef c)"
    and secs: "p_sections st = secs @ [(c, d)]" "c \<notin> fst ` set secs"
    and fresh: "Opt c k \<notin> elements_added st" "k \<notin> fst ` set d"
  shows "\<exists>st'. read_clean pc st n l = Inr st'
           \<and> p_sections st' = secs @ [(c, d @ [(k, [v])])]
           \<and> p_defaults st' = p_defaults st \<and> e st' = e st \<and> cursect st' = cursect st
           \<and> elements_added st' = insert (Opt c k) (elements_added st)"
proof -
  from g have k: "k \<noteq> []" "strip k = k" "optionxform pc k = k" and v: "strip v = v"
    and h: "SECTCRE_match (entry_line k v) = None"
    by (simp_all add: good_entry_def)
  have rk: "rstrip k = k" using k(2) by (rule rstrip_strip_fixed)
  let ?st' = "update_ref (SectionRef c) (AList.update k [v])
                (st\<lparr>elements_added := insert (Opt c k) (elements_added st), optname := Some k\<rparr>)"
  have "read_clean pc st n l = read_option pc st c (SectionRef c) n l (entry_line k v)"
    by (simp add: read_clean_def l h cur)
  also have "\<dots> = Inr ?st'"
    using fresh(1) k(1) by (simp add: read_option_def OPTCRE_match_entry_line [OF g] rk k(3) v)
  finally have r: "read_clean pc st n l = Inr ?st'" .
  have "p_sections ?st' = secs @ [(c, d @ [(k, [v])])]"
    using secs fresh(2) by (simp add: update_ref_def map_entry_last update_fresh)
  moreover have "p_defaults ?st' = p_defaults st"
    by (simp add: update_ref_def)
  ultimately show ?thesis using r by simp
qed

lemma read_entries:
  "\<forall>(k, v) \<in> set its. good_entry pc k v \<Longrightarrow> map strip ls = map (\<lambda>(k, v). entry_line k v) its \<Longrightarrow>
   distinct (map fst its) \<Longrightarrow> cursect st = Some (c, SectionRef c) \<Longrightarrow>
   p_sections st = secs @ [(c, d)] \<Longrightarrow> c \<notin> fst ` set secs \<Longrightarrow>
   \<forall>k \<in> fst ` set its. Opt c k \<notin> elements_added st \<and> k \<notin> fst ` set d \<Longrightarrow>
   \<exists>st'. read_clean_lines pc st n ls = Inr st'
     \<and> p_sections st' = secs @ [(c, d @ map (\<lambda>(k, v). (k, [v])) its)]
     \<and> p_defaults st' = p_defaults st \<and> e st' = e st \<and> cursect st' = cursect st
     \<and> elements_added st' = elements_added st \<union> Opt c ` fst ` set its"
proof (induction its arbitrary: ls st n d)
  case Nil
  then show ?case by simp
next
  case (Cons kv its)
  obtain k v where kv: "kv = (k, v)" by (cases kv)
  from Cons.prems(2) kv obtain l ls' where ls: "ls = l # ls'" and l: "strip l = entry_line k v"
    and ls': "map strip ls' = map (\<lambda>(k, v). entry_line k v) its"
    by (cases ls) auto
  from Cons.prems(1) kv have g: "good_entry pc k v" by simp
  from Cons.prems(7) kv have fresh: "Opt c k \<notin> elements_added st" "k \<notin> fst ` set d" by auto
  from read_entry [OF g l Cons.prems(4,5,6) fresh, of n]
  obtain st1 where r1: "read_clean pc st n l = Inr st1"
    and s1: "p_sections st1 = secs @ [(c, d @ [(k, [v])])]"
    and o1: "p_defaults st1 = p_defaults st" "e st1 = e st" "cursect st1 = cursect st"
    and e1: "elements_added st1 = insert (Opt c k) (elements_added st)"
    by blast
  from Cons.prems(3) kv have dist: "distinct (map fst its)" and kn: "k \<notin> fst ` set its" by auto
  have fresh': "\<forall>k' \<in> fst ` set its. Opt c k' \<notin> elements_added st1 \<and> k' \<notin> fst ` set (d @ [(k, [v])])"
    using Cons.prems(7) kn e1 kv by auto
  from Cons.prems(1) have g': "\<forall>(k, v) \<in> set its. good_entry pc k v" by simp
  have cur1: "cursect st1 = Some (c, SectionRef c)" using o1 Cons.prems(4) by simp
  from Cons.IH [OF g' ls' dist cur1 s1 Cons.prems(6) fresh', of "Suc n"]
  obtain st' where r': "read_clean_lines pc st1 (Suc n) ls' = Inr st'"
    and s': "p_sections st' = secs @ [(c, (d @ [(k, [v])]) @ map (\<lambda>(k, v). (k, [v])) its)]"
    and o': "p_defaults st' = p_defaults st1" "e st' = e st1" "cursect st' = cursect st1"
    and e': "elements_added st' = elements_added st1 \<union> Opt c ` fst ` set its"
    by blast
  have "read_clean_lines pc st n ls = Inr st'" using r1 r' ls by simp
  moreover have "p_sections st' = secs @ [(c, d @ map (\<lambda>(k, v). (k, [v])) (kv # its))]"
    using s' kv by simp
  moreover have "elements_added st' = elements_added st \<union> Opt c ` fst ` set (kv # its)"
    using e' e1 kv by auto
  ultimately show ?case using o' o1 by simp
qed

lemma read_blocks:
  "good_cfg pc cfg \<Longrightarrow> map strip ls = display_lines cfg \<Longrightarrow>
   \<forall>c \<in> fst ` set cfg. c \<notin> set (sections st) \<Longrightarrow>
   \<forall>s k. Opt s k \<in> elements_added st \<longrightarrow> s \<in> set (sections st) \<Longrightarrow>
   \<exists>st'. read_clean_lines pc st n ls = Inr st'
     \<and> p_sections st' = p_sections st @ map (\<lambda>(c, its). (c, map (\<lambda>(k, v). (k, [v])) its)) cfg
     \<and> p_defaults st' = p_defaults st \<and> e st' = e st"
proof (induction cfg arbitrary: ls st n)
  case Nil
  then show ?case by (simp add: display_lines_def)
next
  case (Cons b cfg)
  obtain c its where b: "b = (c, its)" by (cases b)
  from Cons.prems(1) b have gn: "good_name pc c" and di: "distinct (map fst its)"
    and ge: "\<forall>(k, v) \<in> set its. good_entry pc k v" and gc: "good_cfg pc cfg"
    and cn: "c \<notin> fst ` set cfg"
    by (auto simp: good_cfg_def)
  let ?E = "map (\<lambda>(k, v). entry_line k v) its"
  have dl: "display_lines (b # cfg) = (''['' @ c @ '']'') # ?E @ display_lines cfg"
    by (simp add: display_lines_def b)
  with Cons.prems(2) obtain l rest where ls: "ls = l # rest" and l: "strip l = ''['' @ c @ '']''"
    and rest: "map strip rest = ?E @ display_lines cfg"
    by (cases ls) auto
  define ls1 where "ls1 = take (length its) rest"
  define ls2 where "ls2 = drop (length its) rest"
  have r12: "rest = ls1 @ ls2" by (simp add: ls1_def ls2_def)
  have m1: "map strip ls1 = ?E"
    using rest by (simp add: ls1_def take_map [symmetric])
  have m2: "map strip ls2 = display_lines cfg"
    using rest by (simp add: ls2_def drop_map [symmetric])
  have len1: "length ls1 = length its"
    using m1 by (metis length_map)
  from gn have c: "c \<noteq> []" "c \<noteq> default_section" "CHR 0x0A \<notin> set c"
    by (auto simp: good_name_def plain_char_def)
  from Cons.prems(3) b have cs: "c \<notin> set (sections st)" by simp
  let ?st0 = "st\<lparr>p_sections := p_sections st @ [(c, [])], cursect := Some (c, SectionRef c),
                 elements_added := insert (Sect c) (elements_added st), optname := None\<rparr>"
  have hm: "SECTCRE_match (strip l) = Some c"
    using SECTCRE_match_header [OF c(1,3)] by (simp only: l)
  have r0: "read_clean pc st n l = Inr ?st0"
    using cs c(2) by (simp add: read_clean_def hm read_header_def)
  have fresh: "\<forall>k \<in> fst ` set its. Opt c k \<notin> elements_added ?st0 \<and> k \<notin> fst ` set []"
    using Cons.prems(4) cs by auto
  have cs': "c \<notin> fst ` set (p_sections st)" using cs by (simp add: sections_def)
  have cur0: "cursect ?st0 = Some (c, SectionRef c)" by simp
  have sec0: "p_sections ?st0 = p_sections st @ [(c, [])]" by simp
  from read_entries [OF ge m1 di cur0 sec0 cs' fresh, of "Suc n"]
  obtain st1 where r1: "read_clean_lines pc ?st0 (Suc n) ls1 = Inr st1"
    and s1: "p_sections st1 = p_sections st @ [(c, map (\<lambda>(k, v). (k, [v])) its)]"
    and o1: "p_defaults st1 = p_defaults st" "e st1 = e st"
    and e1: "elements_added st1 = insert (Sect c) (elements_added st) \<union> Opt c ` fst ` set its"
    by auto
  have sec1: "sections st1 = sections st @ [c]" using s1 by (simp add: sections_def)
  have n1: "\<forall>c' \<in> fst ` set cfg. c' \<notin> set (sections st1)"
    using Cons.prems(3) cn sec1 by auto
  have el1: "\<forall>s k. Opt s k \<in> elements_added st1 \<longrightarrow> s \<in> set (sections st1)"
    using Cons.prems(4) e1 sec1 by auto
  from Cons.IH [OF gc m2 n1 el1, of "Suc n + length ls1"]
  obtain st' where r': "read_clean_lines pc st1 (Suc n + length ls1) ls2 = Inr st'"
    and s': "p_sections st' = p_sections st1 @ map (\<lambda>(c, its). (c, map (\<lambda>(k, v). (k, [v])) its)) cfg"
    and o': "p_defaults st' = p_defaults st1" "e st' = e st1"
    by blast
  have "read_clean_lines pc ?st0 (Suc n) (ls1 @ ls2) = Inr st'"
    using r1 r' by (simp add: read_clean_lines_append)
  then have "read_clean_lines pc st n ls = Inr st'"
    using r0 ls r12 by simp
  moreover have "p_sections st' = p_sections st @ map (\<lambda>(c, its). (c, map (\<lambda>(k, v). (k, [v])) its)) (b # cfg)"
    using s' s1 b by simp
  ultimately show ?case using o' o1 by simp
qed

lemma good_cfg_join_values:
  "good_cfg pc cfg \<Longrightarrow>
   map (\<lambda>(name, options). (name, map (\<lambda>(k, val). (k, join_value val)) options))
     (map (\<lambda>(c, its). (c, map (\<lambda>(k, v). (k, [v])) its)) cfg) = cfg"
proof (induction cfg)
  case Nil
  then show ?case by simp
next
  case (Cons b cfg)
  obtain c its where b: "b = (c, its)" by (cases b)
  from Cons.prems b have ge: "\<forall>(k, v) \<in> set its. good_entry pc k v" and gc: "good_cfg pc cfg"
    by (auto simp: good_cfg_def)
  have "map (\<lambda>(k, val). (k, join_value val)) (map (\<lambda>(k, v). (k, [v])) its) = its"
    using ge
  proof (induction its)
    case Nil
    then show ?case by simp
  next
    case (Cons kv its)
    then show ?case by (cases kv) (auto simp: good_entry_def join_value_single)
  qed
  with Cons.IH [OF gc] b show ?case by simp
qed

lemma read_string_display:
  assumes "good_cfg pc cfg" and "processed_lines out = display_lines cfg"
  shows "read_string pc (preprocess_file out) = Inr \<lparr>p_sections = cfg, p_defaults = []\<rparr>"
proof -
  let ?ls = "stream_lines (processed_lines out)"
  have "\<forall>p \<in> set (processed_lines out). clean_line p" using processed_lines_clean by blast
  then have "map strip ?ls = display_lines cfg"
    using assms(2) by (simp add: map_strip_stream)
  from read_blocks [OF assms(1) this, of new_read_state 1]
  obtain st' where r: "read_clean_lines pc new_read_state 1 ?ls = Inr st'"
    and s: "p_sections st' = map (\<lambda>(c, its). (c, map (\<lambda>(k, v). (k, [v])) its)) cfg"
    and o: "p_defaults st' = []" "e st' = []"
    by (auto simp: new_read_state_def sections_def)
  show ?thesis
    using r s o good_cfg_join_values [OF assms(1)]
    by (simp add: read_string_clean join_multiline_values_def)
qed

section \<open>Validating a displayed configuration\<close>

lemma remove_escaped_plain: "CHR ''%'' \<notin> set s \<Longrightarrow> remove_escaped s = s"
  by (induction s rule: remove_escaped.induct) auto

lemma KEYCRE_match_plain: "c \<noteq> CHR ''%'' \<Longrightarrow> KEYCRE_match (c # cs) = None"
  by (cases cs) (auto simp: KEYCRE_match_def)

lemma KEYCRE_sub_plain: "CHR ''%'' \<notin> set s \<Longrightarrow> KEYCRE_sub s = s"
  by (induction s) (auto simp: KEYCRE_match_plain)

lemma before_set_plain: "CHR ''%'' \<notin> set v \<Longrightarrow> before_set v = Inr v"
  by (simp add: before_set_def remove_escaped_plain KEYCRE_sub_plain)

lemma dict_update_fresh:
  "distinct (map fst S) \<Longrightarrow> fst ` set S \<inter> fst ` set D = {} \<Longrightarrow> dict_update D S = D @ S"
proof (induction S arbitrary: D)
  case Nil
  then show ?case by (simp add: dict_update_def)
next
  case (Cons kv S)
  obtain k v where kv: "kv = (k, v)" by (cases kv)
  from Cons.prems kv have k: "k \<notin> fst ` set D" and d: "distinct (map fst S)"
    and f: "fst ` set S \<inter> fst ` set (D @ [(k, v)]) = {}"
    by auto
  have "dict_update D (kv # S) = dict_update (AList.update k v D) S"
    by (simp add: dict_update_def kv)
  also have "\<dots> = dict_update (D @ [(k, v)]) S"
    using k by (simp add: update_fresh)
  also have "\<dots> = (D @ [(k, v)]) @ S"
    using d f by (rule Cons.IH)
  finally show ?case by (simp add: kv)
qed

lemma interpolate_items_plain:
  "\<forall>(k, v) \<in> set its. CHR ''%'' \<notin> set v \<Longrightarrow> interpolate_items pc s d its = Inr its"
proof (induction its)
  case Nil
  then show ?case by simp
next
  case (Cons kv its)
  then show ?case by (cases kv) (auto simp: before_get_plain)
qed

lemma clean_items_good:
  "\<forall>(k, v) \<in> set its. good_entry pc k v \<Longrightarrow> distinct (map fst its) \<Longrightarrow>
   c \<noteq> [] \<Longrightarrow> c \<noteq> default_section \<Longrightarrow>
   p_sections p = secs @ [(c, d)] \<Longrightarrow> c \<notin> fst ` set secs \<Longrightarrow>
   fst ` set its \<inter> (seen \<union> fst ` set d) = {} \<Longrightarrow>
   clean_items pc c seen p its = Inr (p\<lparr>p_sections := secs @ [(c, d @ its)]\<rparr>)"
proof (induction its arbitrary: seen p d)
  case Nil
  then show ?case by simp
next
  case (Cons kv its)
  obtain k v where kv: "kv = (k, v)" by (cases kv)
  from Cons.prems(1) kv have g: "good_entry pc k v" and g': "\<forall>(k, v) \<in> set its. good_entry pc k v"
    by auto
  from g have k: "strip k = k" "optionxform pc k = k" and v: "strip v = v" "CHR ''%'' \<notin> set v"
    by (simp_all add: good_entry_def)
  from Cons.prems(7) kv have fresh: "k \<notin> seen" "k \<notin> fst ` set d" by auto
  let ?p' = "p\<lparr>p_sections := secs @ [(c, d @ [(k, v)])]\<rparr>"
  have cs: "c \<in> set (sections p)" using Cons.prems(5) by (simp add: sections_def)
  have bs: "(if v \<noteq> [] then before_set v else Inr v) = Inr v"
    using v(2) by (simp add: before_set_plain)
  have so: "set_option pc p c k v = Inr ?p'"
    using Cons.prems(3,4,5,6) cs fresh(2)
    by (simp add: set_option_def bs k(2) map_entry_last update_fresh)
  from Cons.prems(2) kv have dist: "distinct (map fst its)" and kn: "k \<notin> fst ` set its" by auto
  have f': "fst ` set its \<inter> (insert k seen \<union> fst ` set (d @ [(k, v)])) = {}"
    using Cons.prems(7) kn by auto
  have sp: "p_sections ?p' = secs @ [(c, d @ [(k, v)])]" by simp
  from Cons.IH [OF g' dist Cons.prems(3,4) sp Cons.prems(6) f']
  have "clean_items pc c (insert k seen) ?p' its = Inr (?p'\<lparr>p_sections := secs @ [(c, (d @ [(k, v)]) @ its)]\<rparr>)" .
  then show ?case
    using fresh(1) so by (simp add: kv k(1) v(1))
qed

lemma clean_sections_good:
  "good_cfg pc cfg \<Longrightarrow> set (sections p) \<subseteq> seen \<Longrightarrow> fst ` set cfg \<inter> seen = {} \<Longrightarrow>
   set cfg \<subseteq> set (p_sections raw) \<Longrightarrow> distinct (sections raw) \<Longrightarrow> p_defaults raw = [] \<Longrightarrow>
   clean_sections pc raw seen p (map fst cfg) = Inr (p\<lparr>p_sections := p_sections p @ cfg\<rparr>)"
proof (induction cfg arbitrary: seen p)
  case Nil
  then show ?case by simp
next
  case (Cons b cfg)
  obtain c its where b: "b = (c, its)" by (cases b)
  from Cons.prems(1) b have gn: "good_name pc c" and di: "distinct (map fst its)"
    and ge: "\<forall>(k, v) \<in> set its. good_entry pc k v" and gc: "good_cfg pc cfg"
    and cn: "c \<notin> fst ` set cfg"
    by (auto simp: good_cfg_def)
  from gn have c: "c \<noteq> []" "c \<noteq> default_section" "clean_name pc c = c"
    by (simp_all add: good_name_def)
  from Cons.prems(3) b have cseen: "c \<notin> seen" by auto
  with Cons.prems(2) have csec: "c \<notin> set (sections p)" by auto
  let ?p1 = "p\<lparr>p_sections := p_sections p @ [(c, [])]\<rparr>"
  have a: "(if \<not> contains p c then add_section p c else Inr p) = Inr ?p1"
    using c(2) csec by (simp add: contains_def has_section_def add_section_def)
  from Cons.prems(4) b have "(c, its) \<in> set (p_sections raw)" by simp
  with Cons.prems(5) have "map_of (p_sections raw) c = Some its"
    by (simp add: sections_def)
  then have ir: "items_raw raw c = Inr its"
    using di Cons.prems(6) by (simp add: items_raw_def dict_update_fresh)
  have csec': "c \<notin> fst ` set (p_sections p)" using csec by (simp add: sections_def)
  have "clean_items pc c {} ?p1 its = Inr (?p1\<lparr>p_sections := p_sections p @ [(c, [] @ its)]\<rparr>)"
    using ge di c(1,2) _ csec' by (rule clean_items_good) simp_all
  then have ci: "clean_items pc c {} ?p1 its = Inr (p\<lparr>p_sections := p_sections p @ [(c, its)]\<rparr>)"
    by simp
  let ?p2 = "p\<lparr>p_sections := p_sections p @ [(c, its)]\<rparr>"
  have s2: "set (sections ?p2) \<subseteq> insert c seen"
    using Cons.prems(2) by (auto simp: sections_def)
  have f2: "fst ` set cfg \<inter> insert c seen = {}"
    using Cons.prems(3) cn by auto
  from Cons.prems(4) have sub: "set cfg \<subseteq> set (p_sections raw)" by simp
  from Cons.IH [OF gc s2 f2 sub Cons.prems(5,6)]
  have "clean_sections pc raw (insert c seen) ?p2 (map fst cfg)
          = Inr (?p2\<lparr>p_sections := p_sections ?p2 @ cfg\<rparr>)" .
  then show ?case
    using cseen a ir ci by (simp add: b c(3))
qed

lemma load_config_display:
  assumes "good_cfg pc cfg" and "processed_lines out = display_lines cfg"
  shows "load_config (Some out) pc
           = Inr \<lparr>preserve_case = pc, config = \<lparr>p_sections = cfg, p_defaults = []\<rparr>\<rparr>"
proof -
  let ?raw = "\<lparr>p_sections = cfg, p_defaults = []\<rparr> :: string parser"
  have r: "read_string pc (preprocess_file out) = Inr ?raw"
    using assms by (rule read_string_display)
  from assms(1) have d: "distinct (sections ?raw)"
    by (simp add: good_cfg_def sections_def)
  have "clean_sections pc ?raw {} new_parser (map fst cfg)
          = Inr (new_parser\<lparr>p_sections := p_sections new_parser @ cfg\<rparr>)"
    using assms(1) _ _ _ d by (rule clean_sections_good) (simp_all add: new_parser_def sections_def)
  then have "clean_sections pc ?raw {} new_parser (sections ?raw) = Inr ?raw"
    by (simp add: new_parser_def sections_def)
  with r show ?thesis
    by (simp add: load_config_def except_configparser_def)
qed

lemma section_items_good:
  assumes "good_cfg pc cfg"
  shows "set rest \<subseteq> set cfg \<Longrightarrow>
         section_items pc \<lparr>p_sections = cfg, p_defaults = []\<rparr> (map fst rest) = Inr rest"
proof (induction rest)
  case Nil
  then show ?case by simp
next
  case (Cons b rest)
  obtain c its where b: "b = (c, its)" by (cases b)
  from Cons.prems b have m: "(c, its) \<in> set cfg" by simp
  with assms have di: "distinct (map fst its)" and ge: "\<forall>(k, v) \<in> set its. good_entry pc k v"
    by (auto simp: good_cfg_def)
  from assms m have "map_of cfg c = Some its" by (simp add: good_cfg_def)
  then have ir: "items_raw \<lparr>p_sections = cfg, p_defaults = []\<rparr> c = Inr its"
    using di by (simp add: items_raw_def dict_update_fresh)
  from ge have "\<forall>(k, v) \<in> set its. CHR ''%'' \<notin> set v" by (auto simp: good_entry_def)
  then have "items pc \<lparr>p_sections = cfg, p_defaults = []\<rparr> c = Inr its"
    using ir by (simp add: items_def interpolate_items_plain)
  with Cons b show ?case by simp
qed

lemma get_config_good:
  assumes "good_cfg pc cfg"
  shows "get_config \<lparr>preserve_case = pc, config = \<lparr>p_sections = cfg, p_defaults = []\<rparr>\<rparr> = Inr cfg"
  using section_items_good [OF assms, of cfg] by (simp add: get_config_def sections_def)

lemma strip_comment_plain: "\<forall>c \<in> set l. plain_char c \<Longrightarrow> strip_comment l = l"
  by (simp add: strip_comment_def plain_char_def)

lemma entry_line_not_Nil: "good_entry pc k v \<Longrightarrow> entry_line k v \<noteq> []"
  using OPTCRE_match_entry_line [of pc k v] by (auto simp: OPTCRE_match_def)

lemma display_lines_config_str:
  "good_cfg pc cfg \<Longrightarrow>
   filter (\<lambda>l. l \<noteq> []) (map (\<lambda>l. strip (strip_comment l)) (config_str cfg)) = display_lines cfg"
proof (induction cfg)
  case Nil
  then show ?case by (simp add: config_str_def display_lines_def)
next
  case (Cons b cfg)
  obtain c its where b: "b = (c, its)" by (cases b)
  from Cons.prems b have gn: "good_name pc c"
    and ge: "\<forall>(k, v) \<in> set its. good_entry pc k v" and gc: "good_cfg pc cfg"
    by (auto simp: good_cfg_def)
  have cs: "config_str (b # cfg) =
              (''['' @ c @ '']'') # map (\<lambda>(key, v). key @ '' = '' @ v) its @ [[]] @ config_str cfg"
    by (simp add: config_str_def b)
  have dl: "display_lines (b # cfg) = (''['' @ c @ '']'') # map (\<lambda>(k, v). entry_line k v) its @ display_lines cfg"
    by (simp add: display_lines_def b)
  have pb: "plain_char (CHR ''['')" "plain_char (CHR '']'')" "plain_char (CHR '' '')" "plain_char (CHR ''='')"
    by (simp_all add: plain_char_def is_comment_char_def)
  from gn have "\<forall>x \<in> set (''['' @ c @ '']''). plain_char x"
    using pb by (auto simp: good_name_def)
  then have "strip_comment (''['' @ c @ '']'') = ''['' @ c @ '']''"
    by (rule strip_comment_plain)
  moreover have "strip (''['' @ c @ '']'') = ''['' @ c @ '']''"
    by (rule strip_fixed) (simp_all add: isspace_def)
  ultimately have h: "strip (strip_comment (''['' @ c @ '']'')) = ''['' @ c @ '']''"
    by simp
  have es: "filter (\<lambda>l. l \<noteq> []) (map (\<lambda>l. strip (strip_comment l)) (map (\<lambda>(key, v). key @ '' = '' @ v) its))
            = map (\<lambda>(k, v). entry_line k v) its"
    using ge
  proof (induction its)
    case Nil
    then show ?case by simp
  next
    case (Cons kv its)
    obtain k v where kv: "kv = (k, v)" by (cases kv)
    from Cons.prems kv have g: "good_entry pc k v" by simp
    then have "\<forall>x \<in> set (k @ '' = '' @ v). plain_char x"
      using pb by (auto simp: good_entry_def)
    then have "strip_comment (k @ '' = '' @ v) = k @ '' = '' @ v"
      by (rule strip_comment_plain)
    then have "strip (strip_comment (k @ '' = '' @ v)) = entry_line k v"
      by (simp add: entry_line_def)
    moreover have "entry_line k v \<noteq> []" using g by (rule entry_line_not_Nil)
    ultimately show ?case using Cons kv by simp
  qed
  have e: "strip (strip_comment []) = []"
    by (simp add: strip_comment_def strip_def lstrip_def rstrip_def)
  have "filter (\<lambda>l. l \<noteq> []) (map (\<lambda>l. strip (strip_comment l)) (config_str (b # cfg)))
        = (''['' @ c @ '']'') # map (\<lambda>(k, v). entry_line k v) its
          @ filter (\<lambda>l. l \<noteq> []) (map (\<lambda>l. strip (strip_comment l)) (config_str cfg))"
    unfolding cs using h es e by (simp only: list.simps(9) map_append filter.simps filter_append) simp
  with Cons.IH [OF gc] dl show ?case by simp
qed

lemma config_str_plain:
  assumes "good_cfg pc cfg" and "l \<in> set (config_str cfg)"
  shows "CHR 0x0A \<notin> set l \<and> CHR 0x0D \<notin> set l"
proof -
  from assms(2) obtain c its where m: "(c, its) \<in> set cfg"
    and l: "l = ''['' @ c @ '']'' \<or> l = [] \<or> (\<exists>(k, v) \<in> set its. l = k @ '' = '' @ v)"
    by (auto simp: config_str_def)
  from assms(1) m have gn: "good_name pc c" and ge: "\<forall>(k, v) \<in> set its. good_entry pc k v"
    by (auto simp: good_cfg_def)
  from l show ?thesis
  proof (elim disjE)
    assume "l = ''['' @ c @ '']''"
    with gn show ?thesis by (auto simp: good_name_def plain_char_def)
  next
    assume "l = []"
    then show ?thesis by simp
  next
    assume "\<exists>(k, v) \<in> set its. l = k @ '' = '' @ v"
    then obtain k v where "(k, v) \<in> set its" and lk: "l = k @ '' = '' @ v" by auto
    with ge have "good_entry pc k v" by auto
    then show ?thesis using lk by (auto simp: good_entry_def plain_char_def)
  qed
qed

lemma processed_lines_config_str:
  assumes "good_cfg pc cfg"
  shows "processed_lines (strip (join [CHR 0x0A] (config_str cfg))) = display_lines cfg"
proof -
  have "\<forall>l \<in> set (config_str cfg). CHR 0x0A \<notin> set l \<and> CHR 0x0D \<notin> set l"
    using config_str_plain [OF assms] by blast
  from processed_lines_display [OF this] display_lines_config_str [OF assms]
  show ?thesis by simp
qed

lemma round_trip_good:
  assumes "good_cfg pc cfg"
  shows "\<exists>h'. load_config (Some (strip (join [CHR 0x0A] (config_str cfg)))) pc = Inr h'
           \<and> get_config h' = Inr cfg \<and> list_profiles h' = map fst cfg"
  using load_config_display [OF assms processed_lines_config_str [OF assms]] get_config_good [OF assms]
  by (simp add: list_profiles_def sections_def)

section \<open>The configuration of a handler is displayed as it is read back\<close>

lemma set_splitlines: "l \<in> set (splitlines acc s) \<Longrightarrow> set l \<subseteq> set acc \<union> set s"
proof (induction s arbitrary: acc)
  case Nil
  then show ?case by (auto split: if_splits)
next
  case (Cons c cs)
  show ?case
  proof (cases "c = CHR 0x0A")
    case True
    with Cons.prems have "l = acc @ [c] \<or> l \<in> set (splitlines [] cs)" by simp
    then show ?thesis using Cons.IH [of "[]"] by auto
  next
    case False
    with Cons.prems have "l \<in> set (splitlines (acc @ [c]) cs)" by simp
    from Cons.IH [OF this] show ?thesis by auto
  qed
qed

lemma processed_lines_plain:
  assumes "p \<in> set (processed_lines text)"
  shows "\<forall>c \<in> set p. plain_char c"
proof
  fix c assume c: "c \<in> set p"
  from assms obtain l where l: "l \<in> set (readlines text)" and p: "p = preprocess_line l"
    by (auto simp: processed_lines_def)
  have "p = strip (strip_comment (takeWhile (\<lambda>c. c \<noteq> CHR 0x0A) l))"
    using preprocess_line_readlines [OF l] p by simp
  then have "set p \<subseteq> set l"
    using set_strip [of "strip_comment (takeWhile (\<lambda>c. c \<noteq> CHR 0x0A) l)"]
      set_takeWhileD [of _ "\<lambda>c. \<not> is_comment_char c" "takeWhile (\<lambda>c. c \<noteq> CHR 0x0A) l"]
      set_takeWhileD [of _ "\<lambda>c. c \<noteq> CHR 0x0A" l]
    unfolding strip_comment_def by blast
  moreover have "set l \<subseteq> set (universal_newlines text)"
    using set_splitlines [of l "[]" "universal_newlines text"] l by (simp add: readlines_def)
  ultimately have "c \<in> set (universal_newlines text)" using c by blast
  then have "c \<noteq> CHR 0x0D" using universal_newlines_no_cr [of "text"] by auto
  moreover from processed_lines_clean [OF assms] c have "c \<noteq> CHR 0x0A \<and> \<not> is_comment_char c"
    by (simp add: clean_line_def)
  ultimately show "plain_char c" by (simp add: plain_char_def)
qed

lemma plain_lower_char [simp]: "plain_char (lower_char c) \<longleftrightarrow> plain_char c"
  unfolding plain_char_def is_comment_char_def by (simp add: lower_char_fixed)

lemma is_delim_lower_char [simp]: "is_delim (lower_char c) \<longleftrightarrow> is_delim c"
  unfolding is_delim_def by (simp add: lower_char_fixed)

lemma bracket_lower_char [simp]:
  "lower_char c = CHR ''['' \<longleftrightarrow> c = CHR ''[''"
  "lower_char c = CHR '']'' \<longleftrightarrow> c = CHR '']''"
  by (simp_all add: lower_char_fixed)

lemma bracket_lower_char_sym [simp]:
  "CHR ''['' = lower_char c \<longleftrightarrow> c = CHR ''[''"
  "CHR '']'' = lower_char c \<longleftrightarrow> c = CHR '']''"
  by (simp_all add: eq_commute [of "CHR ''[''"] eq_commute [of "CHR '']''"])

lemma set_optionxform_plain:
  "(\<forall>c \<in> set (optionxform pc s). plain_char c) \<longleftrightarrow> (\<forall>c \<in> set s. plain_char c)"
  by (simp add: optionxform_def lower_def)

lemma set_optionxform_delim:
  "(\<forall>c \<in> set (optionxform pc s). \<not> is_delim c) \<longleftrightarrow> (\<forall>c \<in> set s. \<not> is_delim c)"
  by (simp add: optionxform_def lower_def)

lemma SECTCRE_match_set: "SECTCRE_match p = Some s \<Longrightarrow> set s \<subseteq> set p"
proof -
  assume a: "SECTCRE_match p = Some s"
  then obtain c rest where p: "p = c # rest" by (cases p) (auto simp: SECTCRE_match_def)
  let ?seg = "takeWhile (\<lambda>y. y \<noteq> CHR 0x0A) rest"
  from a p obtain n where "s = take n ?seg"
    by (auto simp: SECTCRE_match_def Let_def split: if_splits)
  then have "set s \<subseteq> set ?seg" by (simp add: set_take_subset)
  moreover have "set ?seg \<subseteq> set rest" using set_takeWhileD by fastforce
  ultimately show ?thesis using p by auto
qed

lemma length_takeWhile_less: "x \<in> set xs \<Longrightarrow> \<not> P x \<Longrightarrow> length (takeWhile P xs) < length xs"
  by (induction xs) auto

lemma SECTCRE_match_None_iff:
  assumes "CHR 0x0A \<notin> set q"
  shows "SECTCRE_match q = None \<longleftrightarrow> \<not> (q \<noteq> [] \<and> hd q = CHR ''['' \<and> CHR '']'' \<in> set (drop 2 q))"
proof (cases q)
  case Nil
  then show ?thesis by (simp add: SECTCRE_match_def)
next
  case (Cons c rest)
  have tw: "takeWhile (\<lambda>y. y \<noteq> CHR 0x0A) rest = rest"
    using assms Cons by (induction rest) auto
  let ?tail = "takeWhile (\<lambda>y. y \<noteq> CHR '']'') (rev rest)"
  have m: "SECTCRE_match q =
             (if c \<noteq> CHR ''['' then None
              else if CHR '']'' \<in> set rest \<and> take (length rest - length ?tail - 1) rest \<noteq> []
                   then Some (take (length rest - length ?tail - 1) rest) else None)"
    by (simp add: SECTCRE_match_def Cons tw Let_def)
  have k: "(CHR '']'' \<in> set rest \<and> take (length rest - length ?tail - 1) rest \<noteq> [])
             \<longleftrightarrow> CHR '']'' \<in> set (drop 1 rest)"
  proof (cases rest)
    case Nil
    then show ?thesis by simp
  next
    case (Cons x r)
    show ?thesis
    proof (cases "CHR '']'' \<in> set r")
      case True
      then have "CHR '']'' \<in> set (rev r)" by simp
      then have "takeWhile (\<lambda>y. y \<noteq> CHR '']'') (rev r @ [x]) = takeWhile (\<lambda>y. y \<noteq> CHR '']'') (rev r)"
        by (intro takeWhile_append1 [of "CHR '']''"]) auto
      moreover have "length (takeWhile (\<lambda>y. y \<noteq> CHR '']'') (rev r)) < length (rev r)"
        using \<open>CHR '']'' \<in> set (rev r)\<close> by (intro length_takeWhile_less [of "CHR '']''"]) auto
      ultimately have "length ?tail < length r" using Cons by simp
      then show ?thesis using True Cons by auto
    next
      case False
      then have "\<forall>y \<in> set (rev r). y \<noteq> CHR '']''" by auto
      then have "takeWhile (\<lambda>y. y \<noteq> CHR '']'') (rev r @ [x]) = rev r @ takeWhile (\<lambda>y. y \<noteq> CHR '']'') [x]"
        by (intro takeWhile_append2) auto
      then have "length r \<le> length ?tail" using Cons by simp
      then show ?thesis using False Cons by simp
    qed
  qed
  have d: "drop 2 q = drop 1 rest" using Cons by simp
  show ?thesis
    unfolding m d using k Cons by auto
qed

lemma set_drop_prefix: "set (drop n xs) \<subseteq> set (drop n (xs @ ys))"
  by auto

lemma entry_line_no_header:
  assumes p: "clean_line p" and en: "entry p = Some (k0, v)" and ne: "k0 \<noteq> []"
    and plain: "\<forall>c \<in> set p. plain_char c"
  shows "SECTCRE_match (entry_line (optionxform pc k0) v) = None"
proof -
  let ?k = "optionxform pc k0"
  from entry_SomeD [OF en] obtain vi v0 where np: "SECTCRE_match p = None"
    and om: "OPTCRE_match p = Some (k0, vi, v0)" and v: "v = strip v0"
    by blast
  define ko where "ko = takeWhile (\<lambda>c. \<not> is_delim c) p"
  from om obtain r where dw: "dropWhile (\<lambda>c. \<not> is_delim c) p = vi # r"
    and k0: "k0 = rstrip ko" and v0: "v0 = lstrip r"
    by (auto simp: OPTCRE_match_def ko_def split: list.splits)
  have pp: "p = ko @ vi # r" unfolding ko_def using dw by (metis takeWhile_dropWhile_id)
  obtain w where ow: "ko = k0 @ w"
    unfolding k0 rstrip_def
    by (metis rev_append rev_rev_ident takeWhile_dropWhile_id)
  have pk: "p = k0 @ (w @ vi # r)" using pp ow by simp
  have sv: "set v \<subseteq> set r"
    using set_strip [of v0] set_lstrip [of r] v v0 by blast
  from entry_clean [OF p en] have fx: "strip k0 = k0" "strip v = v" by simp_all
  have fk: "strip ?k = ?k" using fx(1) by (simp add: strip_optionxform)
  have kne: "?k \<noteq> []" using ne by simp
  have el: "entry_line ?k v = ?k @ (if v = [] then '' ='' else '' = '' @ v)"
    using entry_line_eq [OF kne fk fx(2)] by simp
  have nl_p: "CHR 0x0A \<notin> set p" using plain by (auto simp: plain_char_def)
  have nl_k: "CHR 0x0A \<notin> set ?k"
  proof -
    have "\<forall>c \<in> set k0. plain_char c" using plain pk by auto
    then have "\<forall>c \<in> set ?k. plain_char c" by (simp only: set_optionxform_plain)
    then show ?thesis by (auto simp: plain_char_def)
  qed
  have "set p = set ko \<union> set (vi # r)" by (metis pp set_append)
  then have rp: "set r \<subseteq> set p" by auto
  have nl_v: "CHR 0x0A \<notin> set v" using sv rp nl_p by auto
  have nl_e: "CHR 0x0A \<notin> set (entry_line ?k v)"
    using nl_k nl_v by (simp add: el)
  have "\<not> (entry_line ?k v \<noteq> [] \<and> hd (entry_line ?k v) = CHR ''[''
            \<and> CHR '']'' \<in> set (drop 2 (entry_line ?k v)))"
  proof
    assume a: "entry_line ?k v \<noteq> [] \<and> hd (entry_line ?k v) = CHR ''[''
            \<and> CHR '']'' \<in> set (drop 2 (entry_line ?k v))"
    then have "hd ?k = CHR ''[''" using kne by (simp add: el)
    then have "hd k0 = CHR ''[''" using ne
      by (cases k0) (auto simp: optionxform_def lower_def split: if_splits)
    then have hp: "hd p = CHR ''[''" using pk ne by (metis hd_append2)
    from a have "CHR '']'' \<in> set (drop 2 ?k) \<or> CHR '']'' \<in> set v"
      by (auto simp: el dest!: in_set_dropD split: if_splits)
    then have "CHR '']'' \<in> set (drop 2 p)"
    proof
      assume "CHR '']'' \<in> set (drop 2 ?k)"
      then have "CHR '']'' \<in> set (drop 2 k0)"
        by (auto simp: optionxform_def lower_def drop_map split: if_splits)
      then show ?thesis using set_drop_prefix [of 2 k0 "w @ vi # r"] pk by auto
    next
      assume "CHR '']'' \<in> set v"
      then have "CHR '']'' \<in> set r" using sv by blast
      moreover have o1: "1 \<le> length ko" using ow ne by (cases k0) auto
      have "drop (length ko + 1) p = r" by (simp add: pp)
      moreover have ar: "length ko + 1 = length ko - 1 + 2" using o1 by arith
      have "drop (length ko + 1) p = drop (length ko - 1) (drop 2 p)"
        by (simp only: drop_drop ar)
      moreover have "set (drop (length ko - 1) (drop 2 p)) \<subseteq> set (drop 2 p)"
        by (rule set_drop_subset)
      ultimately show ?thesis by auto
    qed
    with hp have "\<not> SECTCRE_match p = None"
      using SECTCRE_match_None_iff [OF nl_p] p by (simp add: clean_line_def)
    with np show False by simp
  qed
  then show ?thesis using SECTCRE_match_None_iff [OF nl_e] by simp
qed

lemma good_entry_authored:
  assumes cl: "\<forall>p \<in> set ls. clean_line p \<and> (\<forall>c \<in> set p. plain_char c)"
    and a: "(k, v) \<in> authored pc ls" and ne: "k \<noteq> []" and pct: "CHR ''%'' \<notin> set v"
  shows "good_entry pc k v"
proof -
  from a obtain k0 p where p: "p \<in> set ls" and en: "entry p = Some (k0, v)"
    and k: "k = optionxform pc k0"
    by (auto simp: authored_def)
  from cl p have clp: "clean_line p" and pl: "\<forall>c \<in> set p. plain_char c" by auto
  from ne k have ne0: "k0 \<noteq> []" by simp
  from cl have cl': "\<forall>p \<in> set ls. clean_line p" by blast
  from authored_clean [OF cl' a] have fx: "strip k = k" "strip v = v" "optionxform pc k = k"
    by simp_all
  from entry_SomeD [OF en] obtain vi v0 where o: "OPTCRE_match p = Some (k0, vi, v0)"
    and v: "v = strip v0"
    by blast
  let ?o = "takeWhile (\<lambda>c. \<not> is_delim c) p"
  from o obtain r where dw: "dropWhile (\<lambda>c. \<not> is_delim c) p = vi # r"
    and k0: "k0 = rstrip ?o" and v0: "v0 = lstrip r"
    by (auto simp: OPTCRE_match_def split: list.splits)
  have pp: "p = ?o @ vi # r" using dw by (metis takeWhile_dropWhile_id)
  have sk: "set k0 \<subseteq> set ?o" unfolding k0 by (rule set_rstrip)
  have sv: "set v \<subseteq> set r"
    using set_strip [of v0] set_lstrip [of r] v v0 by blast
  have "\<forall>c \<in> set k0. \<not> is_delim c"
    using sk set_takeWhileD [of _ "\<lambda>c. \<not> is_delim c" p] by blast
  then have nd: "\<forall>c \<in> set k. \<not> is_delim c"
    unfolding k by (simp only: set_optionxform_delim)
  have "set ?o \<subseteq> set p" using set_takeWhileD by fastforce
  with sk pl have "\<forall>c \<in> set k0. plain_char c" by blast
  then have pk: "\<forall>c \<in> set k. plain_char c"
    unfolding k by (simp only: set_optionxform_plain)
  have "set p = set ?o \<union> set (vi # r)" by (metis pp set_append)
  then have "set r \<subseteq> set p" by auto
  with sv pl have pv: "\<forall>c \<in> set v. plain_char c" by blast
  have nh: "SECTCRE_match (entry_line k v) = None"
    unfolding k using clp en ne0 pl by (rule entry_line_no_header)
  show ?thesis
    unfolding good_entry_def using ne fx nd pct pk pv nh by auto
qed

lemma header_names_plain:
  assumes "\<forall>p \<in> set ls. \<forall>c \<in> set p. plain_char c" and "s \<in> set (header_names ls)"
  shows "\<forall>c \<in> set s. plain_char c"
proof -
  from assms(2) obtain p where "p \<in> set ls" and "SECTCRE_match p = Some s"
    by (auto simp: header_names_def List.map_filter_def)
  with assms(1) SECTCRE_match_set [of p s] show ?thesis by blast
qed

lemma clean_name_plain:
  assumes "\<forall>c \<in> set s. plain_char c"
  shows "\<forall>c \<in> set (clean_name pc s). plain_char c"
proof -
  from assms set_strip [of s] have "\<forall>c \<in> set (strip s). plain_char c" by blast
  then show ?thesis by (simp add: clean_name_def lower_def)
qed

lemma load_config_names:
  assumes "load_config (Some text) pc = Inr h" and "c \<in> set (list_profiles h)" and "c \<noteq> []"
  shows "good_name pc c"
proof -
  from assms(1) obtain raw cleaned where r: "read_string pc (preprocess_file text) = Inr raw"
    and cs: "clean_sections pc raw {} new_parser (sections raw) = Inr cleaned"
    and h: "h = \<lparr>preserve_case = pc, config = cleaned\<rparr>"
    by (rule load_config_Inr)
  have "sections (new_parser :: string parser) = []"
    by (simp add: new_parser_def sections_def)
  with clean_sections_sections [OF cs] have
    "sections cleaned = filter (\<lambda>x. x \<noteq> default_section) (map (clean_name pc) (sections raw))"
    by simp
  with assms(2) h obtain s where s: "s \<in> set (sections raw)" and c: "c = clean_name pc s"
    and nd: "c \<noteq> default_section"
    by (auto simp: list_profiles_def)
  from s read_string_sections [OF r] have "s \<in> set (header_names (processed_lines text))"
    by simp
  moreover have "\<forall>p \<in> set (processed_lines text). \<forall>c \<in> set p. plain_char c"
    using processed_lines_plain by blast
  ultimately have "\<forall>x \<in> set s. plain_char x" using header_names_plain by blast
  then have "\<forall>x \<in> set c. plain_char x" unfolding c by (rule clean_name_plain)
  moreover have "clean_name pc c = c" by (simp add: c)
  ultimately show ?thesis using assms(3) nd by (simp add: good_name_def)
qed

lemma load_config_entries:
  assumes "load_config (Some text) pc = Inr h"
  shows "\<forall>d \<in> dicts (config h). set d \<subseteq> {kv \<in> authored pc (processed_lines text). fst kv \<noteq> []}"
proof -
  let ?A = "{kv \<in> authored pc (processed_lines text). fst kv \<noteq> []}"
  from assms obtain raw cleaned where r: "read_string pc (preprocess_file text) = Inr raw"
    and c: "clean_sections pc raw {} new_parser (sections raw) = Inr cleaned"
    and h: "h = \<lparr>preserve_case = pc, config = cleaned\<rparr>"
    by (rule load_config_Inr)
  have cl: "\<forall>p \<in> set (processed_lines text). clean_line p" using processed_lines_clean by blast
  have closed: "\<forall>kv \<in> ?A. optionxform pc (strip (fst kv)) = fst kv \<and> strip (snd kv) = snd kv"
  proof
    fix kv assume "kv \<in> ?A"
    then have "(fst kv, snd kv) \<in> authored pc (processed_lines text)" by simp
    from authored_clean [OF cl this]
    show "optionxform pc (strip (fst kv)) = fst kv \<and> strip (snd kv) = snd kv" by simp
  qed
  have raw: "\<forall>d \<in> dicts raw. set d \<subseteq> ?A"
  proof
    fix d assume "d \<in> dicts raw"
    with read_string_raw(1) [OF r] have "set d \<subseteq> authored pc (processed_lines text)"
      and "[] \<notin> fst ` set d"
      by blast+
    then show "set d \<subseteq> ?A" by force
  qed
  have "\<forall>d \<in> dicts (new_parser :: string parser). set d \<subseteq> ?A"
    by (simp add: dicts_def new_parser_def)
  from clean_sections_authored [OF closed raw c this] show ?thesis by (simp add: h)
qed

lemma section_items_map:
  "\<forall>c \<in> set secs. items pc p c = Inr (F c) \<Longrightarrow>
   section_items pc p secs = Inr (map (\<lambda>c. (c, F c)) secs)"
  by (induction secs) auto

lemma items_plain:
  assumes "c \<in> set (sections p)" and "\<forall>d \<in> dicts p. \<forall>kv \<in> set d. CHR ''%'' \<notin> set (snd kv)"
  shows "\<exists>S \<in> dicts p. items pc p c = Inr (dict_update (p_defaults p) S)"
proof -
  from assms(1) obtain S where S: "S \<in> dicts p"
    and i: "items_raw p c = Inr (dict_update (p_defaults p) S)"
    by (rule items_raw_section)
  have "p_defaults p \<in> dicts p" by (simp add: dicts_def)
  with S assms(2) set_dict_update [of "p_defaults p" S]
  have "\<forall>(k, v) \<in> set (dict_update (p_defaults p) S). CHR ''%'' \<notin> set v"
    by fastforce
  then have "items pc p c = Inr (dict_update (p_defaults p) S)"
    using i by (simp add: items_def interpolate_items_plain)
  with S show ?thesis by blast
qed

lemma load_config_good:
  assumes l: "load_config (Some text) pc = Inr h"
    and names: "[] \<notin> set (list_profiles h)"
    and pct: "\<forall>d \<in> dicts (config h). \<forall>kv \<in> set d. CHR ''%'' \<notin> set (snd kv)"
  obtains cfg where "get_config h = Inr cfg" and "good_cfg pc cfg" and "map fst cfg = list_profiles h"
proof -
  let ?p = "config h"
  from load_config_handler [OF l] have wf: "wf_config ?p" and pc: "preserve_case h = pc" by simp_all
  define F where "F c = (case items pc ?p c of Inr d \<Rightarrow> d | Inl err \<Rightarrow> [])" for c
  have it: "items pc ?p c = Inr (F c)" if "c \<in> set (sections ?p)" for c
  proof -
    from items_plain [OF that pct, of pc] obtain S where
      "items pc ?p c = Inr (dict_update (p_defaults ?p) S)" by blast
    then show ?thesis by (simp add: F_def)
  qed
  define cfg where "cfg = map (\<lambda>c. (c, F c)) (sections ?p)"
  have g: "get_config h = Inr cfg"
    using section_items_map [of "sections ?p" pc ?p F] it by (simp add: get_config_def pc cfg_def)
  have m: "map fst cfg = list_profiles h"
    by (simp add: cfg_def list_profiles_def comp_def)
  have cl: "\<forall>p \<in> set (processed_lines text). clean_line p \<and> (\<forall>c \<in> set p. plain_char c)"
    using processed_lines_clean processed_lines_plain by blast
  have good: "good_name pc c \<and> distinct (map fst its) \<and> (\<forall>(k, v) \<in> set its. good_entry pc k v)"
    if "(c, its) \<in> set cfg" for c its
  proof -
    from that have c: "c \<in> set (sections ?p)" and its: "its = F c" by (auto simp: cfg_def)
    from c names have "c \<noteq> []" by (auto simp: list_profiles_def)
    with c have gn: "good_name pc c"
      using load_config_names [OF l] by (simp add: list_profiles_def)
    from items_plain [OF c pct, of pc] obtain S where S: "S \<in> dicts ?p"
      and i: "items pc ?p c = Inr (dict_update (p_defaults ?p) S)"
      by blast
    from i it [OF c] its have e: "its = dict_update (p_defaults ?p) S" by simp
    from wf have "distinct (map fst (p_defaults ?p))" by (simp add: wf_config_def)
    then have d: "distinct (map fst its)" unfolding e by (rule distinct_dict_update)
    have D: "p_defaults ?p \<in> dicts ?p" by (simp add: dicts_def)
    have "good_entry pc k v" if kv: "(k, v) \<in> set its" for k v
    proof -
      from kv e set_dict_update [of "p_defaults ?p" S] obtain d0 where d0: "d0 \<in> dicts ?p"
        and kd: "(k, v) \<in> set d0"
        using S D by blast
      from load_config_entries [OF l] d0 kd
      have "(k, v) \<in> {kv \<in> authored pc (processed_lines text). fst kv \<noteq> []}" by blast
      then have a: "(k, v) \<in> authored pc (processed_lines text)" and ne: "k \<noteq> []" by simp_all
      from pct d0 kd have "CHR ''%'' \<notin> set v" by force
      with cl a ne show ?thesis by (rule good_entry_authored)
    qed
    with gn d show ?thesis by blast
  qed
  from wf have "distinct (map fst cfg)" by (simp add: m list_profiles_def wf_config_def)
  with good have "good_cfg pc cfg" unfolding good_cfg_def by blast
  with g m that show ?thesis by blast
qed

section \<open>The round trip through display_config\<close>

text \<open>
  Claim C4, amended. For a handler that was constructed from a file, that has no
  profile with the empty name and that stores no option value with a percent sign:
  \<open>display_config\<close> returns a text, constructing a handler from that text under the
  same case mode succeeds, and the new handler has the same list of profiles and the
  same result of \<open>get_config\<close>, that is the same key/value pairs in each profile.
\<close>

theorem display_round_trip:
  assumes "load_config (Some text) pc = Inr h"
    and "[] \<notin> set (list_profiles h)"
    and "\<forall>d \<in> dicts (config h). \<forall>kv \<in> set d. CHR ''%'' \<notin> set (snd kv)"
  shows "\<exists>out cfg h'. display_config h = Inr out \<and> get_config h = Inr cfg
           \<and> load_config (Some out) pc = Inr h'
           \<and> list_profiles h' = list_profiles h \<and> get_config h' = Inr cfg"
proof -
  from assms obtain cfg where g: "get_config h = Inr cfg" and good: "good_cfg pc cfg"
    and m: "map fst cfg = list_profiles h"
    by (rule load_config_good)
  from g have d: "display_config h = Inr (strip (join [CHR 0x0A] (config_str cfg)))"
    by (simp add: display_config_def get_config_def)
  from round_trip_good [OF good] obtain h' where
    "load_config (Some (strip (join [CHR 0x0A] (config_str cfg)))) pc = Inr h'"
    and "get_config h' = Inr cfg" and "list_profiles h' = map fst cfg"
    by blast
  with g d m show ?thesis by simp
qed

text \<open>The file of the tests, under the default case mode, is such a handler.\<close>

theorem display_round_trip_witness:
  "\<exists>h out cfg h'. load_config (Some config_content) False = Inr h
      \<and> display_config h = Inr out \<and> get_config h = Inr cfg
      \<and> load_config (Some out) False = Inr h'
      \<and> list_profiles h' = list_profiles h \<and> get_config h' = Inr cfg"
proof -
  let ?h = "\<lparr>preserve_case = False,
          config = \<lparr>p_sections =
                      [(''profile1'', [(''key1'', ''value1''), (''key2'', ''value2'')]),
                       (''profile2'', [(''keya'', ''valueA''), (''keyb'', ''valueB'')]),
                       (''profile3'', [(''keyx'', ''valueX''), (''keyy'', ''valueY'')])],
                    p_defaults = []\<rparr>\<rparr>"
  have n: "[] \<notin> set (list_profiles ?h)"
    by (simp add: list_profiles_def sections_def)
  have p: "\<forall>d \<in> dicts (config ?h). \<forall>kv \<in> set d. CHR ''%'' \<notin> set (snd kv)"
    by (simp add: dicts_def)
  from display_round_trip [OF load_config_content n p] load_config_content
  show ?thesis by blast
qed

text \<open>
  Without the two conditions the text does not come back. The header \<open>[ ]\<close> makes a
  profile with the empty name, which is displayed as \<open>[]\<close>, and that line is not a
  section header. The value \<open>100%%\<close> is displayed interpolated, as \<open>100%\<close>, which
  \<open>set\<close> refuses when the text is read back.
\<close>

theorem display_round_trip_counterexample:
  "(\<exists>h. load_config (Some ''[ ]'') False = Inr h
        \<and> list_profiles h = [[]]
        \<and> display_config h = Inr ''[]''
        \<and> load_config (Some ''[]'') False = Inl (ParseError (MissingSectionHeaderError 1 ''[]'')))
   \<and> (\<exists>h. load_config (Some (file_text [''[a]'', ''k = 100%%''])) False = Inr h
        \<and> get_config h = Inr [(''a'', [(''k'', ''100%'')])]
        \<and> display_config h = Inr (''[a]'' @ [CHR 0x0A] @ ''k = 100%'')
        \<and> load_config (Some (''[a]'' @ [CHR 0x0A] @ ''k = 100%'')) False
            = Inl (InvalidInterpolation ''100%''))"
proof -
  have 1: "load_config (Some ''[ ]'') False
             = Inr \<lparr>preserve_case = False, config = \<lparr>p_sections = [([], [])], p_defaults = []\<rparr>\<rparr>"
    by code_simp
  have 2: "display_config \<lparr>preserve_case = False, config = \<lparr>p_sections = [([], [])], p_defaults = []\<rparr>\<rparr>
             = Inr ''[]''"
    by code_simp
  have 3: "load_config (Some ''[]'') False = Inl (ParseError (MissingSectionHeaderError 1 ''[]''))"
    by code_simp
  have 4: "load_config (Some (file_text [''[a]'', ''k = 100%%''])) False
             = Inr \<lparr>preserve_case = False,
                    config = \<lparr>p_sections = [(''a'', [(''k'', ''100%%'')])], p_defaults = []\<rparr>\<rparr>"
    by code_simp
  have 5: "get_config \<lparr>preserve_case = False,
                    config = \<lparr>p_sections = [(''a'', [(''k'', ''100%%'')])], p_defaults = []\<rparr>\<rparr>
             = Inr [(''a'', [(''k'', ''100%'')])]"
    by code_simp
  have 6: "display_config \<lparr>preserve_case = False,
                    config = \<lparr>p_sections = [(''a'', [(''k'', ''100%%'')])], p_defaults = []\<rparr>\<rparr>
             = Inr (''[a]'' @ [CHR 0x0A] @ ''k = 100%'')"
    by code_simp
  have 7: "load_config (Some (''[a]'' @ [CHR 0x0A] @ ''k = 100%'')) False
            = Inl (InvalidInterpolation ''100%'')"
    by code_simp
  show ?thesis
    using 1 2 3 4 5 6 7 by (simp add: list_profiles_def sections_def)
qed

section \<open>The duplicate-key error of load_config\<close>

text \<open>
  \<open>load_config\<close> keeps the keys of a section in \<open>keys_seen\<close> and raises
  \<open>Duplicate key '...' found in section '...'\<close> for a key that it sees again. The keys
  it compares are those of \<open>items\<close> on the parser that has read the file, which
  are the keys of a dictionary, already trimmed; and a file that repeats a key in a
  section does not get that far. No file makes \<open>load_config\<close> raise that error.
\<close>

lemma read_string_error:
  assumes "read_string pc (preprocess_file text) = Inl err"
  shows "\<exists>c. err = Configparser c"
proof (cases "read_clean_lines pc new_read_state 1 (stream_lines (processed_lines text))")
  case (Inl x)
  with assms have "err = x" by (simp add: read_string_clean)
  with Inl show ?thesis using read_clean_lines_error by blast
next
  case (Inr st)
  with assms show ?thesis by (auto simp: read_string_clean split: if_splits)
qed

lemma duplicate_key_unreachable: "load_config file pc \<noteq> Inl (DuplicateKey k s)"
proof (cases "file")
  case None
  then show ?thesis by (simp add: load_config_def)
next
  case (Some t)
  show ?thesis
  proof (cases "read_string pc (preprocess_file t)")
    case (Inl err)
    then obtain c where "err = Configparser c" using read_string_error by blast
    with Inl Some show ?thesis by (simp add: load_config_def except_configparser_def)
  next
    case (Inr raw)
    show ?thesis
    proof (cases "clean_sections pc raw {} new_parser (sections raw)")
      case (Inl err)
      have "set (sections (new_parser :: string parser)) \<subseteq> {}"
        by (simp add: new_parser_def sections_def)
      from clean_sections_error [OF Inl subset_refl raw_keys_fixed [OF Inr] this]
      have "(\<exists>s \<in> set (sections raw). err = DuplicateProfile (clean_name pc s))
             \<or> (\<exists>x. err = InvalidInterpolation x)" .
      then show ?thesis
        using Inl Inr Some by (auto simp: load_config_def except_configparser_def)
    next
      case (Inr cleaned)
      with \<open>read_string pc (preprocess_file t) = Inr raw\<close> Some show ?thesis
        by (simp add: load_config_def except_configparser_def)
    qed
  qed
qed

text \<open>
  Claim C1, which the code does not meet. The claim is that a file in which one section
  holds two entries with the same trimmed key fails with the duplicate-key error that
  names the key and the section, and \<open>load_config\<close> has a check that raises it. On
  the claim's own example, \<open>key1 = x\<close> followed by \<open>key1 = y\<close> in the section
  \<open>profile1\<close>, construction fails with the parse error that wraps the parser's
  \<open>DuplicateOptionError\<close> for line 3, and not with the duplicate-key error.
\<close>

theorem duplicate_key_failing_input:
  "load_config (Some (file_text [''[profile1]'', ''key1 = x'', ''key1 = y''])) False
     = Inl (ParseError (DuplicateOptionError ''profile1'' ''key1'' 3))
   \<and> load_config (Some (file_text [''[profile1]'', ''key1 = x'', ''key1 = y''])) False
     \<noteq> Inl (DuplicateKey ''key1'' ''profile1'')"
proof -
  have "load_config (Some (file_text [''[profile1]'', ''key1 = x'', ''key1 = y''])) False
     = Inl (ParseError (DuplicateOptionError ''profile1'' ''key1'' 3))"
    by code_simp
  then show ?thesis by simp
qed

end
